theory Spec2Isabelle
  imports Main "HOL-Library.Word"
begin

section \<open>The PD client (pd-client/client.go)\<close>

subsection \<open>Address normalisation\<close>

text \<open>
  \<^verbatim>\<open>strings.HasPrefix\<close> and \<^verbatim>\<open>strings.Contains\<close> of the Go standard library, on byte
  strings. \<open>Contains s substr\<close> scans \<open>s\<close> from the left for a position where
  \<open>substr\<close> starts.
\<close>

fun HasPrefix :: "string \<Rightarrow> string \<Rightarrow> bool" where
  "HasPrefix s [] = True"
| "HasPrefix [] (p # ps) = False"
| "HasPrefix (c # cs) (p # ps) = (c = p \<and> HasPrefix cs ps)"

fun Contains :: "string \<Rightarrow> string \<Rightarrow> bool" where
  "Contains [] substr = HasPrefix [] substr"
| "Contains (c # cs) substr = (HasPrefix (c # cs) substr \<or> Contains cs substr)"

text \<open>
  \<^verbatim>\<open>addrsToUrls\<close> (client.go, lines 341-352): the loop appends one url per address to
  \<open>urls\<close>, which starts empty.
\<close>

fun addrsToUrls_loop :: "string list \<Rightarrow> string list \<Rightarrow> string list" where
  "addrsToUrls_loop urls [] = urls"
| "addrsToUrls_loop urls (addr # addrs) =
     (if Contains addr ''://''
      then addrsToUrls_loop (urls @ [addr]) addrs
      else addrsToUrls_loop (urls @ [''http://'' @ addr]) addrs)"

definition addrsToUrls :: "string list \<Rightarrow> string list" where
  "addrsToUrls addrs = addrsToUrls_loop [] addrs"


subsection \<open>Errors, channels and the data of the client\<close>

type_synonym int64 = "64 word"
type_synonym uint64 = "64 word"
type_synonym uint32 = "32 word"

text \<open>
  Go's \<^verbatim>\<open>error\<close> values. \<open>New\<close> is \<^verbatim>\<open>errors.New\<close>, \<open>Errorf\<close> is
  \<^verbatim>\<open>errors.Errorf\<close> with its format and the formatted list, \<open>Trace\<close> is
  \<^verbatim>\<open>errors.Trace\<close> (juju/errors: a wrapper that keeps the cause and its message),
  \<open>External\<close> is an error made outside this package (transport, context, dialing).
  A nil error is \<open>None :: error option\<close>.
\<close>

datatype error = New string | Errorf string "string list" | Trace error | External string

definition errFailInitClusterID :: error where
  "errFailInitClusterID = New ''[pd] failed to get cluster id''"

definition errClosing :: error where
  "errClosing = New ''[pd] closing''"

definition errTSOLength :: error where
  "errTSOLength = New ''[pd] tso length in rpc response is incorrect''"

definition maxMergeTSORequests :: nat where
  "maxMergeTSORequests = 10000"

definition maxInitClusterRetries :: nat where
  "maxInitClusterRetries = 100"

text \<open>
  What a goroutine's operation does: it completes with a value, it blocks for ever on a
  channel operation that nothing in the state enables (\<open>Blocked\<close>), or it panics
  (\<open>Panic\<close>: a call through a nil interface, closing a closed channel).
\<close>

datatype 'a result = Ok 'a | Blocked | Panic

text \<open>
  A buffered Go channel \<^verbatim>\<open>make(chan T, n)\<close>: its capacity and the values buffered,
  oldest first. A send with the buffer full and a receive with it empty have to wait for
  another goroutine: \<open>None\<close>.
\<close>

record 'a chan =
  cap :: nat
  buf :: "'a list"

definition make_chan :: "nat \<Rightarrow> 'a chan" where
  "make_chan n = \<lparr>cap = n, buf = []\<rparr>"

definition chan_len :: "'a chan \<Rightarrow> nat" where
  "chan_len ch = length (buf ch)"

definition chan_send :: "'a \<Rightarrow> 'a chan \<Rightarrow> 'a chan option" where
  "chan_send v ch = (if length (buf ch) < cap ch then Some (ch\<lparr>buf := buf ch @ [v]\<rparr>) else None)"

definition chan_recv :: "'a chan \<Rightarrow> ('a \<times> 'a chan) option" where
  "chan_recv ch = (case buf ch of [] \<Rightarrow> None | v # vs \<Rightarrow> Some (v, ch\<lparr>buf := vs\<rparr>))"

text \<open>\<^verbatim>\<open>type tsoRequest struct\<close> (lines 53-57).\<close>

record tsoRequest =
  req_done :: "error option chan"
  req_physical :: int64
  req_logical :: int64

text \<open>
  The remote side, as far as the client reads it: the gRPC connection and client made
  for an address, the Tso request and response of pdpb2 (the generated getters return
  the zero value on a nil message), and the store of metapb.
\<close>

datatype ClientConn = ClientConn string

datatype PDClient = NewPDClient ClientConn

record TsoRequest =
  ClusterId :: uint64
  Count :: uint32

record Timestamp =
  Physical :: int64
  Logical :: int64

record TsoResponse =
  RespCount :: uint32
  RespTimestamp :: "Timestamp option"

definition GetPhysical :: "Timestamp option \<Rightarrow> int64" where
  "GetPhysical ts = (case ts of None \<Rightarrow> 0 | Some t \<Rightarrow> Physical t)"

definition GetLogical :: "Timestamp option \<Rightarrow> int64" where
  "GetLogical ts = (case ts of None \<Rightarrow> 0 | Some t \<Rightarrow> Logical t)"

datatype StoreState = Up | Offline | Tombstone

record Store =
  StoreId :: uint64
  StoreAddress :: string
  State :: StoreState

record GetStoreResponse =
  RespStore :: "Store option"

text \<open>
  \<^verbatim>\<open>type client struct\<close> (lines 74-86). A \<^verbatim>\<open>*tsoRequest\<close> is an index into
  \<open>reqs\<close>, the requests allocated so far; \<open>quit\<close> is true once the quit channel is
  closed; \<open>wg\<close> is the counter of the wait group. Three more fields record effects
  that leave no trace in the Go state: \<open>tsoLog\<close> the remote Tso calls issued (the
  connection used and the request), \<open>doneLog\<close> the requests whose done channel was
  sent to, in order, and \<open>slept\<close> the seconds spent in \<^verbatim>\<open>time.Sleep\<close>. The metrics
  and the log lines are not modelled.
\<close>

record client =
  urls :: "string list"
  clusterID :: uint64
  tsoRequests :: "nat chan"
  clients :: "string \<rightharpoonup> PDClient"
  leader :: string
  checkLeaderCh :: "unit chan"
  wg :: nat
  quit :: bool
  reqs :: "tsoRequest list"
  tsoLog :: "(PDClient \<times> TsoRequest) list"
  doneLog :: "nat list"
  slept :: nat

subsection \<open>Cluster id and leader\<close>

text \<open>
  The HTTP client of the package \<^verbatim>\<open>pkg/apiutil\<close>: its three calls are parameters
  of the model, since what they return is up to the servers. The number is the position of the probed url in the list,
  so that a url listed twice may answer differently.
\<close>

datatype APIClient = APIClient string

record Leader =
  Addr :: string

record apiutil =
  api_NewClient :: "nat \<Rightarrow> string \<Rightarrow> error + APIClient"
  api_GetClusterID :: "nat \<Rightarrow> APIClient \<Rightarrow> error + uint64"
  api_GetLeader :: "nat \<Rightarrow> APIClient \<Rightarrow> error + Leader"

text \<open>
  \<^verbatim>\<open>initClusterID\<close> (lines 116-137). \<open>initClusterID_range\<close> is the inner loop over
  the urls from position \<open>j\<close> on: \<open>Some\<close> the first cluster id fetched, \<open>None\<close> when
  the loop runs out of urls. \<open>initClusterID_loop\<close> is the outer loop from pass \<open>i\<close> on;
  pass \<open>i\<close> talks to the servers as \<open>apis i\<close> describes them.
\<close>

fun initClusterID_range :: "apiutil \<Rightarrow> nat \<Rightarrow> string list \<Rightarrow> uint64 option" where
  "initClusterID_range api j [] = None"
| "initClusterID_range api j (u # us) =
     (case api_NewClient api j u of
        Inl err \<Rightarrow> initClusterID_range api (Suc j) us
      | Inr cl \<Rightarrow>
          (case api_GetClusterID api j cl of
             Inl err \<Rightarrow> initClusterID_range api (Suc j) us
           | Inr cid \<Rightarrow> Some cid))"

function initClusterID_loop :: "(nat \<Rightarrow> apiutil) \<Rightarrow> nat \<Rightarrow> client \<Rightarrow> error option \<times> client" where
  "initClusterID_loop apis i c =
     (if i < maxInitClusterRetries then
        (case initClusterID_range (apis i) 0 (urls c) of
           Some cid \<Rightarrow> (None, c\<lparr>clusterID := cid\<rparr>)
         | None \<Rightarrow> initClusterID_loop apis (Suc i) (c\<lparr>slept := slept c + 1\<rparr>))
      else (Some (Trace errFailInitClusterID), c))"
  by pat_completeness auto
termination
  by (relation "measure (\<lambda>(apis, i, c). maxInitClusterRetries - i)") auto

definition initClusterID :: "(nat \<Rightarrow> apiutil) \<Rightarrow> client \<Rightarrow> error option \<times> client" where
  "initClusterID apis c = initClusterID_loop apis 0 c"

text \<open>
  \<^verbatim>\<open>switchLeader\<close> (lines 162-182); \<open>dial\<close> is \<^verbatim>\<open>grpc.Dial\<close> with the options of the
  source. \<^verbatim>\<open>updateLeader\<close> (lines 139-160) is the loop \<open>updateLeader_range\<close> from
  position 0.
\<close>

definition switchLeader :: "(string \<Rightarrow> error + ClientConn) \<Rightarrow> string \<Rightarrow> client \<Rightarrow> error option \<times> client" where
  "switchLeader dial addr c =
     (case clients c addr of
        None \<Rightarrow>
          (case dial addr of
             Inl err \<Rightarrow> (Some (Trace err), c)
           | Inr cc \<Rightarrow> (None, c\<lparr>clients := (clients c)(addr \<mapsto> NewPDClient cc), leader := addr\<rparr>))
      | Some pc \<Rightarrow> (None, c\<lparr>leader := addr\<rparr>))"

fun updateLeader_range ::
  "apiutil \<Rightarrow> (string \<Rightarrow> error + ClientConn) \<Rightarrow> nat \<Rightarrow> string list \<Rightarrow> client \<Rightarrow> error option \<times> client" where
  "updateLeader_range api dial j [] c = (Some (Errorf ''failed to get leader from %v'' (urls c)), c)"
| "updateLeader_range api dial j (u # us) c =
     (case api_NewClient api j u of
        Inl err \<Rightarrow> updateLeader_range api dial (Suc j) us c
      | Inr cl \<Rightarrow>
          (case api_GetLeader api j cl of
             Inl err \<Rightarrow> updateLeader_range api dial (Suc j) us c
           | Inr ldr \<Rightarrow>
               (if leader c \<noteq> Addr ldr then
                  (case switchLeader dial (Addr ldr) c of
                     (Some err, c') \<Rightarrow> (Some (Trace err), c')
                   | (None, c') \<Rightarrow> (None, c'))
                else (None, c))))"

definition updateLeader :: "apiutil \<Rightarrow> (string \<Rightarrow> error + ClientConn) \<Rightarrow> client \<Rightarrow> error option \<times> client" where
  "updateLeader api dial c = updateLeader_range api dial 0 (urls c) c"

text \<open>
  \<^verbatim>\<open>NewClient\<close> (lines 89-114): the client, or nil and the error. The two goroutines it
  starts are the two the wait group counts.
\<close>

definition NewClient ::
  "(nat \<Rightarrow> apiutil) \<Rightarrow> apiutil \<Rightarrow> (string \<Rightarrow> error + ClientConn) \<Rightarrow> string list \<Rightarrow> client option \<times> error option" where
  "NewClient apis api dial pdAddrs =
     (let c = \<lparr>urls = addrsToUrls pdAddrs, clusterID = 0,
                tsoRequests = make_chan maxMergeTSORequests,
                clients = Map.empty, leader = [], checkLeaderCh = make_chan 1,
                wg = 0, quit = False, reqs = [], tsoLog = [], doneLog = [], slept = 0\<rparr>
      in case initClusterID apis c of
           (Some err, c1) \<Rightarrow> (None, Some (Trace err))
         | (None, c1) \<Rightarrow>
             (case updateLeader api dial c1 of
                (Some err, c2) \<Rightarrow> (None, Some (Trace err))
              | (None, c2) \<Rightarrow> (Some (c2\<lparr>wg := 2\<rparr>), None)))"

definition leaderClient :: "client \<Rightarrow> PDClient option" where
  "leaderClient c = clients c (leader c)"

text \<open>\<^verbatim>\<open>scheduleCheckLeader\<close> (lines 267-272): a send under a select with a default.\<close>

definition scheduleCheckLeader :: "client \<Rightarrow> client" where
  "scheduleCheckLeader c =
     (case chan_send () (checkLeaderCh c) of
        Some ch \<Rightarrow> c\<lparr>checkLeaderCh := ch\<rparr>
      | None \<Rightarrow> c)"

subsection \<open>Timestamp requests\<close>

text \<open>
  The statement \<^verbatim>\<open>req.done <- err\<close> (lines 246 and 256), and \<^verbatim>\<open>finishTSORequest\<close>
  (lines 244-247). A request that was never allocated stands for a nil pointer.
\<close>

definition done_send :: "nat \<Rightarrow> error option \<Rightarrow> client \<Rightarrow> client result" where
  "done_send req err c =
     (if req < length (reqs c) then
        (case chan_send err (req_done (reqs c ! req)) of
           None \<Rightarrow> Blocked
         | Some ch \<Rightarrow>
             Ok (c\<lparr>reqs := (reqs c)[req := (reqs c ! req)\<lparr>req_done := ch\<rparr>],
                   doneLog := doneLog c @ [req]\<rparr>))
      else Panic)"

definition finishTSORequest :: "nat \<Rightarrow> int64 \<Rightarrow> int64 \<Rightarrow> error option \<Rightarrow> client \<Rightarrow> client result" where
  "finishTSORequest req phys logi err c =
     (if req < length (reqs c) then
        done_send req err
          (c\<lparr>reqs := (reqs c)[req := (reqs c ! req)\<lparr>req_physical := phys, req_logical := logi\<rparr>]\<rparr>)
      else Panic)"

text \<open>
  \<^verbatim>\<open>GetTS\<close> (lines 278-298) in its two steps, between which the caller's goroutine can
  be suspended: \<open>GetTS_enqueue\<close> allocates the request and sends it to the queue (lines
  282-285), \<open>GetTS_select\<close> is the select (lines 287-297) once the scheduler has picked
  a case; \<open>ctx_err\<close> is \<^verbatim>\<open>ctx.Err()\<close>, nil while the context is not done.
\<close>

definition GetTS_enqueue :: "client \<Rightarrow> (nat \<times> client) result" where
  "GetTS_enqueue c =
     (let req = length (reqs c);
          c1 = c\<lparr>reqs := reqs c @ [\<lparr>req_done = make_chan 1, req_physical = 0, req_logical = 0\<rparr>]\<rparr>
      in case chan_send req (tsoRequests c1) of
           None \<Rightarrow> Blocked
         | Some ch \<Rightarrow> Ok (req, c1\<lparr>tsoRequests := ch\<rparr>))"

datatype getts_case = DoneCase | CtxDoneCase

definition GetTS_select ::
  "getts_case \<Rightarrow> error option \<Rightarrow> nat \<Rightarrow> client \<Rightarrow> ((int64 \<times> int64 \<times> error option) \<times> client) result" where
  "GetTS_select pick ctx_err req c =
     (if req < length (reqs c) then
        (case pick of
           DoneCase \<Rightarrow>
             (case chan_recv (req_done (reqs c ! req)) of
                None \<Rightarrow> Blocked
              | Some (err, ch) \<Rightarrow>
                  (let c1 = c\<lparr>reqs := (reqs c)[req := (reqs c ! req)\<lparr>req_done := ch\<rparr>]\<rparr>
                   in case err of
                        Some e \<Rightarrow> Ok ((0, 0, Some (Trace e)), scheduleCheckLeader c1)
                      | None \<Rightarrow>
                          Ok ((req_physical (reqs c ! req), req_logical (reqs c ! req), None), c1)))
         | CtxDoneCase \<Rightarrow>
             (case ctx_err of
                None \<Rightarrow> Blocked
              | Some e \<Rightarrow> Ok ((0, 0, Some (Trace e)), c)))
      else Panic)"

text \<open>
  What surrounds one call of \<^verbatim>\<open>processTSORequests\<close>: the answer of the leader to the
  Tso call, and the number of callers of \<^verbatim>\<open>GetTS\<close> that reach their enqueue while the
  call is in flight, that is after \<^verbatim>\<open>len(c.tsoRequests)\<close> was read. Producers only
  append to the queue and the consumer only takes from its head, so it makes no
  difference to the requests taken when, after the length was read, the others arrive.
  A producer that finds the queue full waits, and so do those behind it.
\<close>

record tso_env =
  arrivals :: nat
  Tso :: "PDClient \<Rightarrow> TsoRequest \<Rightarrow> error + TsoResponse"

fun arrive :: "nat \<Rightarrow> client \<Rightarrow> client" where
  "arrive 0 c = c"
| "arrive (Suc n) c =
     (case GetTS_enqueue c of
        Ok (req, c') \<Rightarrow> arrive n c'
      | Blocked \<Rightarrow> c
      | Panic \<Rightarrow> c)"

definition GetCount :: "TsoResponse option \<Rightarrow> uint32" where
  "GetCount resp = (case resp of None \<Rightarrow> 0 | Some r \<Rightarrow> RespCount r)"

definition GetTimestamp :: "TsoResponse option \<Rightarrow> Timestamp option" where
  "GetTimestamp resp = (case resp of None \<Rightarrow> None | Some r \<Rightarrow> RespTimestamp r)"

text \<open>
  The two loops of \<^verbatim>\<open>processTSORequests\<close>, with the number of iterations left: lines
  230-232 after a failure, lines 238-241 after a success.
\<close>

fun finish_failed :: "nat \<Rightarrow> error \<Rightarrow> client \<Rightarrow> client result" where
  "finish_failed 0 err c = Ok c"
| "finish_failed (Suc n) err c =
     (case chan_recv (tsoRequests c) of
        None \<Rightarrow> Blocked
      | Some (req, ch) \<Rightarrow>
          (case finishTSORequest req 0 0 (Some (Trace err)) (c\<lparr>tsoRequests := ch\<rparr>) of
             Ok c' \<Rightarrow> finish_failed n err c'
           | Blocked \<Rightarrow> Blocked
           | Panic \<Rightarrow> Panic))"

fun finish_pending :: "nat \<Rightarrow> int64 \<Rightarrow> int64 \<Rightarrow> client \<Rightarrow> client result" where
  "finish_pending 0 phys logi c = Ok c"
| "finish_pending (Suc n) phys logi c =
     (case chan_recv (tsoRequests c) of
        None \<Rightarrow> Blocked
      | Some (req, ch) \<Rightarrow>
          (case finishTSORequest req phys (logi - 1) None (c\<lparr>tsoRequests := ch\<rparr>) of
             Ok c' \<Rightarrow> finish_pending n phys (logi - 1) c'
           | Blocked \<Rightarrow> Blocked
           | Panic \<Rightarrow> Panic))"

text \<open>\<^verbatim>\<open>processTSORequests\<close> (lines 214-242).\<close>

definition processTSORequests :: "tso_env \<Rightarrow> nat \<Rightarrow> client \<Rightarrow> client result" where
  "processTSORequests env first c =
     (let pendingCount = chan_len (tsoRequests c) in
      case leaderClient c of
        None \<Rightarrow> Panic
      | Some pc \<Rightarrow>
          (let treq = \<lparr>ClusterId = clusterID c, Count = of_nat (pendingCount + 1)\<rparr>;
               c1 = arrive (arrivals env) (c\<lparr>tsoLog := tsoLog c @ [(pc, treq)]\<rparr>);
               (resp, err) = (case Tso env pc treq of
                                Inl e \<Rightarrow> (None, Some e)
                              | Inr r \<Rightarrow> (Some r, None));
               err = (if err = None \<and> GetCount resp \<noteq> of_nat (pendingCount + 1)
                      then Some errTSOLength else err)
           in case err of
                Some e \<Rightarrow>
                  (case finishTSORequest first 0 0 (Some (Trace e)) c1 of
                     Ok c2 \<Rightarrow> finish_failed pendingCount e c2
                   | Blocked \<Rightarrow> Blocked
                   | Panic \<Rightarrow> Panic)
              | None \<Rightarrow>
                  (let phys = GetPhysical (GetTimestamp resp);
                       logi = GetLogical (GetTimestamp resp)
                   in case finishTSORequest first phys logi None c1 of
                        Ok c2 \<Rightarrow> finish_pending pendingCount phys logi c2
                      | Blocked \<Rightarrow> Blocked
                      | Panic \<Rightarrow> Panic)))"

subsection \<open>The two loops and Close\<close>

text \<open>
  One iteration of a background loop, once the scheduler has picked a case of its
  select: the loop goes on with a new state, it returns (after \<^verbatim>\<open>wg.Done()\<close>, which
  panics on a counter that is already zero), or the case picked is not ready and the
  goroutine stays where it is.
\<close>

datatype loop_step = Continue client | Return client | Waiting

datatype ts_case = TsoRequestCase | TsQuitCase

text \<open>\<^verbatim>\<open>tsLoop\<close> (lines 201-212).\<close>

definition tsLoop_iter :: "ts_case \<Rightarrow> tso_env \<Rightarrow> client \<Rightarrow> loop_step result" where
  "tsLoop_iter pick env c =
     (case pick of
        TsoRequestCase \<Rightarrow>
          (case chan_recv (tsoRequests c) of
             None \<Rightarrow> Ok Waiting
           | Some (first, ch) \<Rightarrow>
               (case processTSORequests env first (c\<lparr>tsoRequests := ch\<rparr>) of
                  Ok c' \<Rightarrow> Ok (Continue c')
                | Blocked \<Rightarrow> Blocked
                | Panic \<Rightarrow> Panic))
      | TsQuitCase \<Rightarrow>
          (if quit c then (if wg c = 0 then Panic else Ok (Return (c\<lparr>wg := wg c - 1\<rparr>)))
           else Ok Waiting))"

datatype leader_case = CheckLeaderCase | TimeAfterCase | LeaderQuitCase

text \<open>\<^verbatim>\<open>leaderLoop\<close> (lines 184-199); a failure of \<^verbatim>\<open>updateLeader\<close> is only logged.\<close>

definition leaderLoop_iter ::
  "leader_case \<Rightarrow> apiutil \<Rightarrow> (string \<Rightarrow> error + ClientConn) \<Rightarrow> client \<Rightarrow> loop_step result" where
  "leaderLoop_iter pick api dial c =
     (case pick of
        CheckLeaderCase \<Rightarrow>
          (case chan_recv (checkLeaderCh c) of
             None \<Rightarrow> Ok Waiting
           | Some (u, ch) \<Rightarrow> Ok (Continue (snd (updateLeader api dial (c\<lparr>checkLeaderCh := ch\<rparr>)))))
      | TimeAfterCase \<Rightarrow> Ok (Continue (snd (updateLeader api dial c)))
      | LeaderQuitCase \<Rightarrow>
          (if quit c then (if wg c = 0 then Panic else Ok (Return (c\<lparr>wg := wg c - 1\<rparr>)))
           else Ok Waiting))"

text \<open>
  \<^verbatim>\<open>Close\<close> (lines 249-258) in its two steps: \<open>Close_quit\<close> closes the quit channel
  (line 250; closing a closed channel panics), and \<open>Close_drain\<close> is the rest, which
  \<^verbatim>\<open>c.wg.Wait()\<close> lets start only when the counter of the wait group is zero. Between
  the two, the background loops run. \<open>Close_loop\<close> is the loop of lines 254-257 with
  the number of iterations left.

  Callers of \<^verbatim>\<open>GetTS\<close> run beside the loop, and nothing keeps them from the queue:
  \<open>arr k\<close> is the number of callers that reach their send to the queue (line 285),
  or are still waiting there since the queue was full, while \<open>k\<close> receives of the loop
  are to come. With \<open>n\<close> the length read at line 253, \<open>arr n\<close> callers come after the
  length was read and before the first receive, and \<open>arr k\<close> callers, for \<open>k < n\<close>,
  after the receive that leaves \<open>k\<close> receives to come. Of the callers of one turn,
  those that find room are admitted, as in \<open>arrive\<close>. The send to the done channel
  touches neither the queue nor the new requests, so callers that come between that send
  and the next receive are counted with those before the send.
\<close>

definition Close_quit :: "client \<Rightarrow> client result" where
  "Close_quit c = (if quit c then Panic else Ok (c\<lparr>quit := True\<rparr>))"

fun Close_loop :: "(nat \<Rightarrow> nat) \<Rightarrow> nat \<Rightarrow> client \<Rightarrow> client result" where
  "Close_loop arr 0 c = Ok c"
| "Close_loop arr (Suc n) c =
     (case chan_recv (tsoRequests c) of
        None \<Rightarrow> Blocked
      | Some (req, ch) \<Rightarrow>
          (case done_send req (Some (Trace errClosing)) (arrive (arr n) (c\<lparr>tsoRequests := ch\<rparr>)) of
             Ok c' \<Rightarrow> Close_loop arr n c'
           | Blocked \<Rightarrow> Blocked
           | Panic \<Rightarrow> Panic))"

definition Close_drain :: "(nat \<Rightarrow> nat) \<Rightarrow> client \<Rightarrow> client result" where
  "Close_drain arr c =
     (if wg c \<noteq> 0 then Blocked
      else (let n = chan_len (tsoRequests c) in Close_loop arr n (arrive (arr n) c)))"

subsection \<open>Store lookup\<close>

text \<open>
  \<^verbatim>\<open>GetStore\<close> (lines 317-339): the two values returned, and the client. \<open>rpc\<close> is the
  remote call under the deadline of the context.
\<close>

definition GetStore_field :: "GetStoreResponse option \<Rightarrow> Store option" where
  "GetStore_field resp = (case resp of None \<Rightarrow> None | Some r \<Rightarrow> RespStore r)"

definition GetStore ::
  "(PDClient \<Rightarrow> uint64 \<Rightarrow> error + GetStoreResponse) \<Rightarrow> uint64 \<Rightarrow> client \<Rightarrow>
     ((Store option \<times> error option) \<times> client) result" where
  "GetStore rpc storeID c =
     (case leaderClient c of
        None \<Rightarrow> Panic
      | Some pc \<Rightarrow>
          (case rpc pc storeID of
             Inl err \<Rightarrow> Ok ((None, Some (Trace err)), scheduleCheckLeader c)
           | Inr resp \<Rightarrow>
               (case GetStore_field (Some resp) of
                  None \<Rightarrow> Ok ((None, Some (New ''[pd] store field in rpc response not set'')), c)
                | Some store \<Rightarrow>
                    (if State store = Tombstone then Ok ((None, None), c)
                     else Ok ((Some store, None), c)))))"

section \<open>Notions of the statements\<close>

text \<open>
  What an address answers to a probe: the cluster id it reports at position \<open>j\<close> of
  a pass, or nothing when the connection or the query fails; likewise for the leader
  query. A pass fails when no position answers; the first answer is the one the loops
  act on.
\<close>

definition clusterID_answer :: "apiutil \<Rightarrow> nat \<Rightarrow> string \<Rightarrow> uint64 option" where
  "clusterID_answer api j u =
     (case api_NewClient api j u of
        Inl err \<Rightarrow> None
      | Inr cl \<Rightarrow> (case api_GetClusterID api j cl of Inl err \<Rightarrow> None | Inr cid \<Rightarrow> Some cid))"

definition pass_fails :: "apiutil \<Rightarrow> string list \<Rightarrow> bool" where
  "pass_fails api us = (\<forall>p < length us. clusterID_answer api p (us ! p) = None)"

definition first_clusterID_answer :: "apiutil \<Rightarrow> string list \<Rightarrow> nat \<Rightarrow> uint64 \<Rightarrow> bool" where
  "first_clusterID_answer api us p cid \<longleftrightarrow>
     p < length us \<and> (\<forall>q < p. clusterID_answer api q (us ! q) = None) \<and>
     clusterID_answer api p (us ! p) = Some cid"

definition leader_answer :: "apiutil \<Rightarrow> nat \<Rightarrow> string \<Rightarrow> Leader option" where
  "leader_answer api j u =
     (case api_NewClient api j u of
        Inl err \<Rightarrow> None
      | Inr cl \<Rightarrow> (case api_GetLeader api j cl of Inl err \<Rightarrow> None | Inr ldr \<Rightarrow> Some ldr))"

definition first_leader_answer :: "apiutil \<Rightarrow> string list \<Rightarrow> nat \<Rightarrow> Leader \<Rightarrow> bool" where
  "first_leader_answer api us p ldr \<longleftrightarrow>
     p < length us \<and> (\<forall>q < p. leader_answer api q (us ! q) = None) \<and>
     leader_answer api p (us ! p) = Some ldr"

definition no_leader_answer :: "apiutil \<Rightarrow> string list \<Rightarrow> bool" where
  "no_leader_answer api us \<longleftrightarrow> (\<forall>p < length us. leader_answer api p (us ! p) = None)"

text \<open>
  What \<^verbatim>\<open>updateLeader\<close> does with the answer it acts on (lines 149-157).
\<close>

definition on_answer :: "(string \<Rightarrow> error + ClientConn) \<Rightarrow> Leader \<Rightarrow> client \<Rightarrow> error option \<times> client" where
  "on_answer dial ldr c =
     (if leader c \<noteq> Addr ldr then
        (case switchLeader dial (Addr ldr) c of
           (Some err, c') \<Rightarrow> (Some (Trace err), c')
         | (None, c') \<Rightarrow> (None, c'))
      else (None, c))"

text \<open>
  A request as \<^verbatim>\<open>GetTS\<close> allocates it, and a request that has been completed: its done
  channel holds the one value sent, its fields the timestamp handed over.
\<close>

definition fresh_request :: tsoRequest where
  "fresh_request = \<lparr>req_done = make_chan 1, req_physical = 0, req_logical = 0\<rparr>"

definition completed :: "error option \<Rightarrow> int64 \<Rightarrow> int64 \<Rightarrow> tsoRequest" where
  "completed err phys logi =
     \<lparr>req_done = \<lparr>cap = 1, buf = [err]\<rparr>, req_physical = phys, req_logical = logi\<rparr>"

text \<open>
  The well-formedness of the queue: it has the capacity the constructor gave it, holds
  no request twice, and holds only allocated requests whose done channel was never
  sent to; no done channel was sent to twice; every done channel has capacity 1 and is
  empty until it is sent to. A request is in flight when the consumer has taken it from
  the queue and not yet completed it.
\<close>

definition queue_inv :: "client \<Rightarrow> bool" where
  "queue_inv c \<longleftrightarrow>
     cap (tsoRequests c) = maxMergeTSORequests \<and>
     length (buf (tsoRequests c)) \<le> maxMergeTSORequests \<and>
     distinct (buf (tsoRequests c)) \<and>
     (\<forall>r \<in> set (buf (tsoRequests c)). r < length (reqs c) \<and> r \<notin> set (doneLog c)) \<and>
     distinct (doneLog c) \<and>
     (\<forall>r \<in> set (doneLog c). r < length (reqs c)) \<and>
     (\<forall>r < length (reqs c). cap (req_done (reqs c ! r)) = 1 \<and>
        (r \<notin> set (doneLog c) \<longrightarrow> buf (req_done (reqs c ! r)) = []))"

definition in_flight :: "nat \<Rightarrow> client \<Rightarrow> bool" where
  "in_flight first c \<longleftrightarrow>
     first < length (reqs c) \<and> first \<notin> set (buf (tsoRequests c)) \<and> first \<notin> set (doneLog c)"

text \<open>The recheck signal: the channel has one slot.\<close>

definition signal_inv :: "client \<Rightarrow> bool" where
  "signal_inv c \<longleftrightarrow> cap (checkLeaderCh c) = 1 \<and> length (buf (checkLeaderCh c)) \<le> 1"

text \<open>The leader, once there is one, has a connection in the registry.\<close>

definition leader_inv :: "client \<Rightarrow> bool" where
  "leader_inv c \<longleftrightarrow> (leader c \<noteq> [] \<longrightarrow> clients c (leader c) \<noteq> None)"

text \<open>
  Of \<open>n\<close> callers that reach the queue, those that find room, and the requests they
  enqueue.
\<close>

definition admitted :: "nat \<Rightarrow> client \<Rightarrow> nat" where
  "admitted n c = min n (cap (tsoRequests c) - length (buf (tsoRequests c)))"

definition late_requests :: "nat \<Rightarrow> client \<Rightarrow> nat list" where
  "late_requests n c = [length (reqs c) ..< length (reqs c) + admitted n c]"

text \<open>
  The Tso request of a batch whose first request has been taken from the queue; what
  the client makes of the answer to a request for \<open>n\<close> timestamps (the error of the
  call, the length error, or the timestamp); and what the request at position \<open>i\<close> of
  the batch (the first request at position 0) is completed with.
\<close>

definition tso_request :: "client \<Rightarrow> TsoRequest" where
  "tso_request c = \<lparr>ClusterId = clusterID c, Count = of_nat (length (buf (tsoRequests c)) + 1)\<rparr>"

definition tso_verdict :: "error + TsoResponse \<Rightarrow> nat \<Rightarrow> error + int64 \<times> int64" where
  "tso_verdict r n =
     (case r of
        Inl e \<Rightarrow> Inl e
      | Inr resp \<Rightarrow>
          (if RespCount resp \<noteq> of_nat n then Inl errTSOLength
           else Inr (GetPhysical (RespTimestamp resp), GetLogical (RespTimestamp resp))))"

definition expected :: "error + int64 \<times> int64 \<Rightarrow> nat \<Rightarrow> tsoRequest" where
  "expected v i =
     (case v of
        Inl e \<Rightarrow> completed (Some (Trace e)) 0 0
      | Inr (p, l) \<Rightarrow> completed None p (l - of_nat i))"

text \<open>The client once the consumer has taken the oldest request from the queue.\<close>

definition dequeued :: "client \<Rightarrow> client" where
  "dequeued c = c\<lparr>tsoRequests := (tsoRequests c)\<lparr>buf := tl (buf (tsoRequests c))\<rparr>\<rparr>"

text \<open>
  The states of a client: the ones \<open>NewClient\<close> returns, and the ones that the
  operations of the client and the iterations of its two loops lead to, in any
  interleaving. The relation does not track which goroutine is where, so it admits more
  interleavings than the program has; an invariant of \<open>reachable\<close> holds of the
  program all the more.
\<close>

inductive reachable :: "client \<Rightarrow> bool" where
  init: "NewClient apis api dial pdAddrs = (Some c, e) \<Longrightarrow> reachable c"
| enqueue: "reachable c \<Longrightarrow> GetTS_enqueue c = Ok (req, c') \<Longrightarrow> reachable c'"
| select: "reachable c \<Longrightarrow> GetTS_select pick ctx_err req c = Ok (res, c') \<Longrightarrow> reachable c'"
| ts_continue: "reachable c \<Longrightarrow> tsLoop_iter tpick env c = Ok (Continue c') \<Longrightarrow> reachable c'"
| ts_return: "reachable c \<Longrightarrow> tsLoop_iter tpick env c = Ok (Return c') \<Longrightarrow> reachable c'"
| leader_continue:
    "reachable c \<Longrightarrow> leaderLoop_iter lpick api dial c = Ok (Continue c') \<Longrightarrow> reachable c'"
| leader_return:
    "reachable c \<Longrightarrow> leaderLoop_iter lpick api dial c = Ok (Return c') \<Longrightarrow> reachable c'"
| schedule: "reachable c \<Longrightarrow> reachable (scheduleCheckLeader c)"
| get_store: "reachable c \<Longrightarrow> GetStore rpc storeID c = Ok (sres, c') \<Longrightarrow> reachable c'"
| close_quit: "reachable c \<Longrightarrow> Close_quit c = Ok c' \<Longrightarrow> reachable c'"
| close_drain: "reachable c \<Longrightarrow> Close_drain arr c = Ok c' \<Longrightarrow> reachable c'"

text \<open>
  Two states with the same queue, requests, record of completions and recheck signal.
\<close>

definition same_queues :: "client \<Rightarrow> client \<Rightarrow> bool" where
  "same_queues c c' \<longleftrightarrow>
     tsoRequests c' = tsoRequests c \<and> reqs c' = reqs c \<and> doneLog c' = doneLog c \<and>
     checkLeaderCh c' = checkLeaderCh c"

text \<open>
  An example deployment: three addresses of which only the third answers, with cluster
  id 42 and itself as the leader; the same servers all down; a dialer that connects;
  and the client that \<open>NewClient\<close> makes of them.
\<close>

definition ex_api :: apiutil where
  "ex_api = \<lparr>api_NewClient = (\<lambda>j u. Inr (APIClient u)),
             api_GetClusterID = (\<lambda>j cl. if cl = APIClient ''http://pd3:2379'' then Inr 42
                                          else Inl (External ''connection refused'')),
             api_GetLeader = (\<lambda>j cl. if cl = APIClient ''http://pd3:2379''
                                       then Inr \<lparr>Addr = ''http://pd3:2379''\<rparr>
                                       else Inl (External ''connection refused''))\<rparr>"

definition ex_api_down :: apiutil where
  "ex_api_down = \<lparr>api_NewClient = (\<lambda>j u. Inr (APIClient u)),
                  api_GetClusterID = (\<lambda>j cl. Inl (External ''connection refused'')),
                  api_GetLeader = (\<lambda>j cl. Inl (External ''connection refused''))\<rparr>"

definition ex_dial :: "string \<Rightarrow> error + ClientConn" where
  "ex_dial addr = Inr (ClientConn addr)"

definition ex_addrs :: "string list" where
  "ex_addrs = [''pd1:2379'', ''pd2:2379'', ''pd3:2379'']"

definition ex_client :: client where
  "ex_client =
     \<lparr>urls = [''http://pd1:2379'', ''http://pd2:2379'', ''http://pd3:2379''], clusterID = 42,
      tsoRequests = make_chan 10000,
      clients = [''http://pd3:2379'' \<mapsto> NewPDClient (ClientConn ''http://pd3:2379'')],
      leader = ''http://pd3:2379'', checkLeaderCh = make_chan 1,
      wg = 2, quit = False, reqs = [], tsoLog = [], doneLog = [], slept = 0\<rparr>"

definition ex_client_old :: client where
  "ex_client_old =
     ex_client\<lparr>clients := [''http://pd1:2379'' \<mapsto> NewPDClient (ClientConn ''http://pd1:2379'')],
               leader := ''http://pd1:2379''\<rparr>"

text \<open>
  The example client with \<open>n\<close> callers of \<^verbatim>\<open>GetTS\<close> waiting in the queue, and the
  same after both loops have returned; a leader that answers a Tso call with the
  count asked for and the timestamp \<open>(p, l)\<close> while \<open>n\<close> more callers arrive; a
  call that times out; and a leader that answers with the count 1.
\<close>

definition ex_client_queued :: "nat \<Rightarrow> client" where
  "ex_client_queued n =
     ex_client\<lparr>tsoRequests := \<lparr>cap = 10000, buf = [0..<n]\<rparr>, reqs := replicate n fresh_request\<rparr>"

definition ex_client_closing :: "nat \<Rightarrow> client" where
  "ex_client_closing n = (ex_client_queued n)\<lparr>wg := 0, quit := True\<rparr>"

definition ex_tso :: "nat \<Rightarrow> int64 \<Rightarrow> int64 \<Rightarrow> tso_env" where
  "ex_tso n p l =
     \<lparr>arrivals = n,
      Tso = (\<lambda>pc r. Inr \<lparr>RespCount = Count r,
                           RespTimestamp = Some \<lparr>Physical = p, Logical = l\<rparr>\<rparr>)\<rparr>"



section \<open>Properties\<close>

subsection \<open>Address normalisation: properties\<close>

lemma HasPrefix_iff: "HasPrefix s p \<longleftrightarrow> (\<exists>t. s = p @ t)"
  by (induction s p rule: HasPrefix.induct) auto

lemma Contains_iff: "Contains s sub \<longleftrightarrow> (\<exists>pre post. s = pre @ sub @ post)"
proof (induction s)
  case Nil
  show ?case by (auto simp: HasPrefix_iff)
next
  case (Cons c cs)
  show ?case
  proof
    assume "Contains (c # cs) sub"
    then consider "HasPrefix (c # cs) sub" | "Contains cs sub" by auto
    then show "\<exists>pre post. c # cs = pre @ sub @ post"
    proof cases
      case 1
      then obtain t where "c # cs = sub @ t" by (auto simp: HasPrefix_iff)
      then have "c # cs = [] @ sub @ t" by simp
      then show ?thesis by blast
    next
      case 2
      then obtain pre post where "cs = pre @ sub @ post" using Cons.IH by blast
      then have "c # cs = (c # pre) @ sub @ post" by simp
      then show ?thesis by blast
    qed
  next
    assume "\<exists>pre post. c # cs = pre @ sub @ post"
    then obtain pre post where e: "c # cs = pre @ sub @ post" by blast
    show "Contains (c # cs) sub"
    proof (cases pre)
      case Nil
      then have "HasPrefix (c # cs) sub" using e by (auto simp: HasPrefix_iff)
      then show ?thesis by simp
    next
      case (Cons d pre')
      then have "cs = pre' @ sub @ post" using e by simp
      then have "Contains cs sub" using Cons.IH by blast
      then show ?thesis by simp
    qed
  qed
qed

lemma list2_nth: "length xs = 2 \<Longrightarrow> xs ! 0 = a \<Longrightarrow> xs ! 1 = b \<Longrightarrow> xs = [a, b]"
  by (cases xs; cases "tl xs") auto

lemma addrsToUrls_loop_eq:
  "addrsToUrls_loop us addrs =
     us @ map (\<lambda>addr. if Contains addr ''://'' then addr else ''http://'' @ addr) addrs"
  by (induction addrs arbitrary: us) simp_all

text \<open>
  C10: \<open>addrsToUrls\<close> keeps the length and the order of its input; an address that
  contains the scheme separator \<open>://\<close> (anywhere) is passed through unchanged, and
  every other address is prefixed with \<open>http://\<close>.
\<close>

theorem addrsToUrls_normalises:
  "length (addrsToUrls addrs) = length addrs \<and>
   (\<forall>i < length addrs.
      ((\<exists>pre post. addrs ! i = pre @ ''://'' @ post) \<longrightarrow> addrsToUrls addrs ! i = addrs ! i) \<and>
      (\<not> (\<exists>pre post. addrs ! i = pre @ ''://'' @ post) \<longrightarrow>
         addrsToUrls addrs ! i = ''http://'' @ addrs ! i))"
  by (simp add: addrsToUrls_def addrsToUrls_loop_eq Contains_iff)

theorem addrsToUrls_normalises_witness:
  "addrsToUrls [''127.0.0.1:2379'', ''https://pd1:2379''] =
     [''http://127.0.0.1:2379'', ''https://pd1:2379'']"
proof -
  let ?addrs = "[''127.0.0.1:2379'', ''https://pd1:2379'']"
  have c0: "\<not> Contains ''127.0.0.1:2379'' ''://''" by simp
  have c1: "Contains ''https://pd1:2379'' ''://''" by simp
  have n0: "\<not> (\<exists>pre post. ?addrs ! 0 = pre @ ''://'' @ post)"
    using c0 by (simp add: Contains_iff)
  have n1: "\<exists>pre post. ?addrs ! 1 = pre @ ''://'' @ post"
    using c1 by (simp add: Contains_iff)
  have len: "length (addrsToUrls ?addrs) = 2"
    using addrsToUrls_normalises [of ?addrs] by simp
  have e0: "addrsToUrls ?addrs ! 0 = ''http://127.0.0.1:2379''"
    using addrsToUrls_normalises [of ?addrs] n0 by auto
  have e1: "addrsToUrls ?addrs ! 1 = ''https://pd1:2379''"
    using addrsToUrls_normalises [of ?addrs] n1 by auto
  show ?thesis
    using len e0 e1 by (rule list2_nth)
qed

subsection \<open>The example deployment\<close>

lemma all_less_2: "(\<forall>q < (2::nat). P q) \<longleftrightarrow> P 0 \<and> P 1"
  by (auto simp: less_2_cases_iff)

lemma all_less_3: "(\<forall>q < (3::nat). P q) \<longleftrightarrow> P 0 \<and> P 1 \<and> P 2"
proof -
  have "\<And>q::nat. q < 3 \<longleftrightarrow> q = 0 \<or> q = 1 \<or> q = 2" by arith
  then show ?thesis by auto
qed

lemma ex_urls: "addrsToUrls ex_addrs = [''http://pd1:2379'', ''http://pd2:2379'', ''http://pd3:2379'']"
  by (simp add: addrsToUrls_def ex_addrs_def)

lemma ex_NewClient: "NewClient (\<lambda>i. ex_api) ex_api ex_dial ex_addrs = (Some ex_client, None)"
  apply (simp add: NewClient_def ex_urls initClusterID_def)
  apply (subst initClusterID_loop.simps)
  apply (simp add: maxInitClusterRetries_def ex_api_def updateLeader_def switchLeader_def ex_dial_def ex_client_def maxMergeTSORequests_def)
  done

subsection \<open>Cluster id bootstrap\<close>

lemma initClusterID_range_None:
  "(\<forall>p < length us. clusterID_answer api (j + p) (us ! p) = None) \<Longrightarrow>
   initClusterID_range api j us = None"
proof (induction us arbitrary: j)
  case Nil
  show ?case by simp
next
  case (Cons u us)
  have h0: "clusterID_answer api j u = None" using Cons.prems [rule_format, of 0] by simp
  have "\<forall>p < length us. clusterID_answer api (Suc j + p) (us ! p) = None"
  proof (intro allI impI)
    fix p assume "p < length us"
    then show "clusterID_answer api (Suc j + p) (us ! p) = None"
      using Cons.prems [rule_format, of "Suc p"] by simp
  qed
  then have "initClusterID_range api (Suc j) us = None" by (rule Cons.IH)
  then show ?case using h0
    by (auto simp: clusterID_answer_def split: sum.splits)
qed

lemma initClusterID_range_Some:
  "p < length us \<Longrightarrow> (\<forall>q < p. clusterID_answer api (j + q) (us ! q) = None) \<Longrightarrow>
   clusterID_answer api (j + p) (us ! p) = Some cid \<Longrightarrow>
   initClusterID_range api j us = Some cid"
proof (induction us arbitrary: j p)
  case Nil
  then show ?case by simp
next
  case (Cons u us)
  show ?case
  proof (cases p)
    case 0
    then show ?thesis using Cons.prems(3)
      by (auto simp: clusterID_answer_def split: sum.splits)
  next
    case (Suc p')
    have h0: "clusterID_answer api j u = None" using Cons.prems(2) [rule_format, of 0] Suc by simp
    have a: "p' < length us" using Cons.prems(1) Suc by simp
    have b: "\<forall>q < p'. clusterID_answer api (Suc j + q) (us ! q) = None"
    proof (intro allI impI)
      fix q assume "q < p'"
      then show "clusterID_answer api (Suc j + q) (us ! q) = None"
        using Cons.prems(2) [rule_format, of "Suc q"] Suc by simp
    qed
    have c: "clusterID_answer api (Suc j + p') (us ! p') = Some cid"
      using Cons.prems(3) Suc by simp
    have "initClusterID_range api (Suc j) us = Some cid" using a b c by (rule Cons.IH)
    then show ?thesis using h0
      by (auto simp: clusterID_answer_def split: sum.splits)
  qed
qed

lemma initClusterID_loop_found:
  "i \<le> i0 \<Longrightarrow> i0 < maxInitClusterRetries \<Longrightarrow>
   (\<forall>k. i \<le> k \<and> k < i0 \<longrightarrow> initClusterID_range (apis k) 0 (urls c) = None) \<Longrightarrow>
   initClusterID_range (apis i0) 0 (urls c) = Some cid \<Longrightarrow>
   initClusterID_loop apis i c = (None, c\<lparr>clusterID := cid, slept := slept c + (i0 - i)\<rparr>)"
proof (induction "i0 - i" arbitrary: i c)
  case 0
  then have "i = i0" by simp
  then show ?case using 0 by (subst initClusterID_loop.simps) simp
next
  case (Suc d)
  have lt: "i < i0" using Suc.hyps(2) by simp
  have none: "initClusterID_range (apis i) 0 (urls c) = None" using Suc.prems(3) lt by simp
  let ?c = "c\<lparr>slept := slept c + 1\<rparr>"
  have "initClusterID_loop apis (Suc i) ?c =
          (None, ?c\<lparr>clusterID := cid, slept := slept ?c + (i0 - Suc i)\<rparr>)"
  proof (rule Suc.hyps(1))
    show "d = i0 - Suc i" using Suc.hyps(2) by simp
    show "Suc i \<le> i0" using lt by simp
    show "i0 < maxInitClusterRetries" by (rule Suc.prems(2))
    show "\<forall>k. Suc i \<le> k \<and> k < i0 \<longrightarrow> initClusterID_range (apis k) 0 (urls ?c) = None"
      using Suc.prems(3) by simp
    show "initClusterID_range (apis i0) 0 (urls ?c) = Some cid" using Suc.prems(4) by simp
  qed
  moreover have "i < maxInitClusterRetries" using lt Suc.prems(2) by simp
  ultimately show ?case using none lt
    by (subst initClusterID_loop.simps) simp
qed

lemma initClusterID_loop_exhausted:
  "i \<le> maxInitClusterRetries \<Longrightarrow>
   (\<forall>k. i \<le> k \<and> k < maxInitClusterRetries \<longrightarrow> initClusterID_range (apis k) 0 (urls c) = None) \<Longrightarrow>
   initClusterID_loop apis i c =
     (Some (Trace errFailInitClusterID), c\<lparr>slept := slept c + (maxInitClusterRetries - i)\<rparr>)"
proof (induction "maxInitClusterRetries - i" arbitrary: i c)
  case 0
  then have "i = maxInitClusterRetries" by simp
  then show ?case by (subst initClusterID_loop.simps) simp
next
  case (Suc d)
  have lt: "i < maxInitClusterRetries" using Suc.hyps(2) by simp
  have none: "initClusterID_range (apis i) 0 (urls c) = None" using Suc.prems(2) lt by simp
  let ?c = "c\<lparr>slept := slept c + 1\<rparr>"
  have "initClusterID_loop apis (Suc i) ?c =
          (Some (Trace errFailInitClusterID), ?c\<lparr>slept := slept ?c + (maxInitClusterRetries - Suc i)\<rparr>)"
  proof (rule Suc.hyps(1))
    show "d = maxInitClusterRetries - Suc i" using Suc.hyps(2) by simp
    show "Suc i \<le> maxInitClusterRetries" using lt by simp
    show "\<forall>k. Suc i \<le> k \<and> k < maxInitClusterRetries \<longrightarrow> initClusterID_range (apis k) 0 (urls ?c) = None"
      using Suc.prems(2) by simp
  qed
  then show ?case using none lt
    by (subst initClusterID_loop.simps) simp
qed

lemma initClusterID_range_pass_fails:
  "pass_fails api us \<Longrightarrow> initClusterID_range api 0 us = None"
  unfolding pass_fails_def by (rule initClusterID_range_None) simp

lemma initClusterID_range_first_answer:
  "first_clusterID_answer api us p cid \<Longrightarrow> initClusterID_range api 0 us = Some cid"
  unfolding first_clusterID_answer_def
  using initClusterID_range_Some [of p us api 0 cid] by simp

lemma initClusterID_found:
  assumes "i0 < maxInitClusterRetries" and "\<forall>k < i0. pass_fails (apis k) (urls c)"
    and "first_clusterID_answer (apis i0) (urls c) p cid"
  shows "initClusterID apis c = (None, c\<lparr>clusterID := cid, slept := slept c + i0\<rparr>)"
proof -
  have "initClusterID_loop apis 0 c = (None, c\<lparr>clusterID := cid, slept := slept c + (i0 - 0)\<rparr>)"
  proof (rule initClusterID_loop_found)
    show "0 \<le> i0" by simp
    show "i0 < maxInitClusterRetries" by (rule assms(1))
    show "\<forall>k. 0 \<le> k \<and> k < i0 \<longrightarrow> initClusterID_range (apis k) 0 (urls c) = None"
      using assms(2) by (simp add: initClusterID_range_pass_fails)
    show "initClusterID_range (apis i0) 0 (urls c) = Some cid"
      using assms(3) by (rule initClusterID_range_first_answer)
  qed
  then show ?thesis by (simp add: initClusterID_def)
qed

lemma initClusterID_exhausted:
  assumes "\<forall>k < maxInitClusterRetries. pass_fails (apis k) (urls c)"
  shows "initClusterID apis c =
           (Some (Trace errFailInitClusterID), c\<lparr>slept := slept c + maxInitClusterRetries\<rparr>)"
proof -
  have "initClusterID_loop apis 0 c =
          (Some (Trace errFailInitClusterID), c\<lparr>slept := slept c + (maxInitClusterRetries - 0)\<rparr>)"
  proof (rule initClusterID_loop_exhausted)
    show "0 \<le> maxInitClusterRetries" by simp
    show "\<forall>k. 0 \<le> k \<and> k < maxInitClusterRetries \<longrightarrow>
            initClusterID_range (apis k) 0 (urls c) = None"
      using assms by (simp add: initClusterID_range_pass_fails)
  qed
  then show ?thesis by (simp add: initClusterID_def)
qed

subsection \<open>The loop over the urls for the leader\<close>

lemma updateLeader_range_none:
  "(\<forall>p < length us. leader_answer api (j + p) (us ! p) = None) \<Longrightarrow>
   updateLeader_range api dial j us c = (Some (Errorf ''failed to get leader from %v'' (urls c)), c)"
proof (induction us arbitrary: j)
  case Nil
  show ?case by simp
next
  case (Cons u us)
  have h0: "leader_answer api j u = None" using Cons.prems [rule_format, of 0] by simp
  have "\<forall>p < length us. leader_answer api (Suc j + p) (us ! p) = None"
  proof (intro allI impI)
    fix p assume "p < length us"
    then show "leader_answer api (Suc j + p) (us ! p) = None"
      using Cons.prems [rule_format, of "Suc p"] by simp
  qed
  then have "updateLeader_range api dial (Suc j) us c =
               (Some (Errorf ''failed to get leader from %v'' (urls c)), c)"
    by (rule Cons.IH)
  then show ?case using h0
    by (auto simp: leader_answer_def split: sum.splits)
qed

lemma updateLeader_range_first:
  "p < length us \<Longrightarrow> (\<forall>q < p. leader_answer api (j + q) (us ! q) = None) \<Longrightarrow>
   leader_answer api (j + p) (us ! p) = Some ldr \<Longrightarrow>
   updateLeader_range api dial j us c = on_answer dial ldr c"
proof (induction us arbitrary: j p)
  case Nil
  then show ?case by simp
next
  case (Cons u us)
  show ?case
  proof (cases p)
    case 0
    then show ?thesis using Cons.prems(3)
      by (auto simp: leader_answer_def on_answer_def split: sum.splits)
  next
    case (Suc p')
    have h0: "leader_answer api j u = None" using Cons.prems(2) [rule_format, of 0] Suc by simp
    have a: "p' < length us" using Cons.prems(1) Suc by simp
    have b: "\<forall>q < p'. leader_answer api (Suc j + q) (us ! q) = None"
    proof (intro allI impI)
      fix q assume "q < p'"
      then show "leader_answer api (Suc j + q) (us ! q) = None"
        using Cons.prems(2) [rule_format, of "Suc q"] Suc by simp
    qed
    have c: "leader_answer api (Suc j + p') (us ! p') = Some ldr"
      using Cons.prems(3) Suc by simp
    have "updateLeader_range api dial (Suc j) us c = on_answer dial ldr c"
      using a b c by (rule Cons.IH)
    then show ?thesis using h0
      by (auto simp: leader_answer_def split: sum.splits)
  qed
qed

lemma answers_cases:
  "no_leader_answer api us \<or> (\<exists>p ldr. first_leader_answer api us p ldr)"
proof (cases "no_leader_answer api us")
  case True
  then show ?thesis by simp
next
  case False
  then have ex: "\<exists>p. p < length us \<and> leader_answer api p (us ! p) \<noteq> None"
    by (auto simp: no_leader_answer_def)
  define p where "p = (LEAST p. p < length us \<and> leader_answer api p (us ! p) \<noteq> None)"
  have pp: "p < length us \<and> leader_answer api p (us ! p) \<noteq> None"
    unfolding p_def using ex by (rule LeastI_ex)
  have least: "\<And>q. q < p \<Longrightarrow> \<not> (q < length us \<and> leader_answer api q (us ! q) \<noteq> None)"
    unfolding p_def by (rule not_less_Least)
  have "\<forall>q < p. leader_answer api q (us ! q) = None"
  proof (intro allI impI)
    fix q assume "q < p"
    then show "leader_answer api q (us ! q) = None" using least [of q] pp by auto
  qed
  moreover obtain ldr where "leader_answer api p (us ! p) = Some ldr" using pp by auto
  ultimately have "first_leader_answer api us p ldr"
    using pp by (simp add: first_leader_answer_def)
  then show ?thesis by blast
qed

lemma updateLeader_none:
  "no_leader_answer api (urls c) \<Longrightarrow>
   updateLeader api dial c = (Some (Errorf ''failed to get leader from %v'' (urls c)), c)"
  unfolding updateLeader_def no_leader_answer_def
  by (rule updateLeader_range_none) simp

lemma updateLeader_first:
  "first_leader_answer api (urls c) p ldr \<Longrightarrow> updateLeader api dial c = on_answer dial ldr c"
  unfolding updateLeader_def first_leader_answer_def
  using updateLeader_range_first [of p "urls c" api 0 ldr dial c] by simp

lemma on_answer_cases:
  "on_answer dial ldr c =
     (if leader c = Addr ldr then (None, c)
      else case clients c (Addr ldr) of
             Some pc \<Rightarrow> (None, c\<lparr>leader := Addr ldr\<rparr>)
           | None \<Rightarrow>
               (case dial (Addr ldr) of
                  Inr cc \<Rightarrow> (None, c\<lparr>clients := (clients c)(Addr ldr \<mapsto> NewPDClient cc), leader := Addr ldr\<rparr>)
                | Inl err \<Rightarrow> (Some (Trace (Trace err)), c)))"
  by (simp add: on_answer_def switchLeader_def split: option.splits sum.splits)

lemma updateLeader_clusterID: "clusterID (snd (updateLeader api dial c)) = clusterID c"
proof (cases "no_leader_answer api (urls c)")
  case True
  then show ?thesis by (simp add: updateLeader_none)
next
  case False
  then obtain p ldr where "first_leader_answer api (urls c) p ldr"
    using answers_cases [of api "urls c"] by blast
  then show ?thesis
    by (simp add: updateLeader_first on_answer_cases split: option.splits sum.splits)
qed

subsection \<open>Bootstrap and construction\<close>

text \<open>
  C6: the bootstrap adopts the first cluster id fetched, in the first pass in which an
  address answers, after one second of sleep for each pass that failed before; when all
  100 passes fail (100 seconds of sleep) it returns the error
  \<open>errFailInitClusterID\<close>, and \<open>NewClient\<close> returns no client and that error. A
  client that \<open>NewClient\<close> returns has the cluster id that was fetched.
\<close>

theorem initClusterID_bootstrap:
  "(i0 < 100 \<and> (\<forall>k < i0. pass_fails (apis k) (urls c)) \<and>
      first_clusterID_answer (apis i0) (urls c) p cid \<longrightarrow>
      initClusterID apis c = (None, c\<lparr>clusterID := cid, slept := slept c + i0\<rparr>)) \<and>
   ((\<forall>k < 100. pass_fails (apis k) (urls c)) \<longrightarrow>
      initClusterID apis c = (Some (Trace errFailInitClusterID), c\<lparr>slept := slept c + 100\<rparr>)) \<and>
   (i0 < 100 \<and> (\<forall>k < i0. pass_fails (apis k) (addrsToUrls pdAddrs)) \<and>
      first_clusterID_answer (apis i0) (addrsToUrls pdAddrs) p cid \<and>
      NewClient apis api dial pdAddrs = (Some c', e) \<longrightarrow> clusterID c' = cid \<and> e = None) \<and>
   ((\<forall>k < 100. pass_fails (apis k) (addrsToUrls pdAddrs)) \<longrightarrow>
      NewClient apis api dial pdAddrs = (None, Some (Trace (Trace errFailInitClusterID))))"
proof -
  let ?c = "\<lparr>urls = addrsToUrls pdAddrs, clusterID = 0,
             tsoRequests = make_chan maxMergeTSORequests,
             clients = Map.empty, leader = [], checkLeaderCh = make_chan 1,
             wg = 0, quit = False, reqs = [], tsoLog = [], doneLog = [], slept = 0\<rparr>"
  have p1: "i0 < 100 \<and> (\<forall>k < i0. pass_fails (apis k) (urls c)) \<and>
      first_clusterID_answer (apis i0) (urls c) p cid \<longrightarrow>
      initClusterID apis c = (None, c\<lparr>clusterID := cid, slept := slept c + i0\<rparr>)"
    using initClusterID_found [of i0 apis c p cid] by (simp add: maxInitClusterRetries_def)
  have p2: "(\<forall>k < 100. pass_fails (apis k) (urls c)) \<longrightarrow>
      initClusterID apis c = (Some (Trace errFailInitClusterID), c\<lparr>slept := slept c + 100\<rparr>)"
    using initClusterID_exhausted [of apis c] by (simp add: maxInitClusterRetries_def)
  have p3: "i0 < 100 \<and> (\<forall>k < i0. pass_fails (apis k) (addrsToUrls pdAddrs)) \<and>
      first_clusterID_answer (apis i0) (addrsToUrls pdAddrs) p cid \<and>
      NewClient apis api dial pdAddrs = (Some c', e) \<longrightarrow> clusterID c' = cid \<and> e = None"
  proof
    assume a: "i0 < 100 \<and> (\<forall>k < i0. pass_fails (apis k) (addrsToUrls pdAddrs)) \<and>
      first_clusterID_answer (apis i0) (addrsToUrls pdAddrs) p cid \<and>
      NewClient apis api dial pdAddrs = (Some c', e)"
    have i: "initClusterID apis ?c = (None, ?c\<lparr>clusterID := cid, slept := slept ?c + i0\<rparr>)"
      using a initClusterID_found [of i0 apis ?c p cid] by (simp add: maxInitClusterRetries_def)
    obtain r c2 where u: "updateLeader api dial (?c\<lparr>clusterID := cid, slept := slept ?c + i0\<rparr>) = (r, c2)"
      by (cases "updateLeader api dial (?c\<lparr>clusterID := cid, slept := slept ?c + i0\<rparr>)")
    have cid2: "clusterID c2 = cid"
      using updateLeader_clusterID [of api dial "?c\<lparr>clusterID := cid, slept := slept ?c + i0\<rparr>"] u
      by simp
    have "NewClient apis api dial pdAddrs =
            (case r of Some err \<Rightarrow> (None, Some (Trace err)) | None \<Rightarrow> (Some (c2\<lparr>wg := 2\<rparr>), None))"
      using i u by (simp add: NewClient_def split: option.splits)
    then show "clusterID c' = cid \<and> e = None"
      using a cid2 by (auto split: option.splits)
  qed
  have p4: "(\<forall>k < 100. pass_fails (apis k) (addrsToUrls pdAddrs)) \<longrightarrow>
      NewClient apis api dial pdAddrs = (None, Some (Trace (Trace errFailInitClusterID)))"
  proof
    assume a: "\<forall>k < 100. pass_fails (apis k) (addrsToUrls pdAddrs)"
    have "initClusterID apis ?c =
            (Some (Trace errFailInitClusterID), ?c\<lparr>slept := slept ?c + maxInitClusterRetries\<rparr>)"
      using a initClusterID_exhausted [of apis ?c] by (simp add: maxInitClusterRetries_def)
    then show "NewClient apis api dial pdAddrs = (None, Some (Trace (Trace errFailInitClusterID)))"
      by (simp add: NewClient_def)
  qed
  show ?thesis by (intro conjI) (rule p1 p2 p3 p4)+
qed

theorem initClusterID_bootstrap_witness:
  "NewClient (\<lambda>i. ex_api) ex_api ex_dial ex_addrs = (Some ex_client, None) \<and>
   clusterID ex_client = 42 \<and>
   initClusterID (\<lambda>i. ex_api) (ex_client\<lparr>clusterID := 0\<rparr>) = (None, ex_client) \<and>
   initClusterID (\<lambda>i. ex_api_down) ex_client =
     (Some (Trace errFailInitClusterID), ex_client\<lparr>slept := 100\<rparr>) \<and>
   NewClient (\<lambda>i. ex_api_down) ex_api ex_dial ex_addrs =
     (None, Some (Trace (Trace errFailInitClusterID)))"
proof -
  have first: "first_clusterID_answer ex_api (addrsToUrls ex_addrs) 2 42"
    by (simp add: first_clusterID_answer_def ex_urls all_less_2 clusterID_answer_def ex_api_def)
  have first': "first_clusterID_answer ex_api (urls (ex_client\<lparr>clusterID := 0\<rparr>)) 2 42"
    by (simp add: first_clusterID_answer_def ex_client_def all_less_2 clusterID_answer_def ex_api_def)
  have down: "pass_fails ex_api_down (addrsToUrls ex_addrs)"
    by (simp add: pass_fails_def ex_urls clusterID_answer_def ex_api_down_def)
  have down': "pass_fails ex_api_down (urls ex_client)"
    by (simp add: pass_fails_def ex_client_def clusterID_answer_def ex_api_down_def)
  have new: "NewClient (\<lambda>i. ex_api) ex_api ex_dial ex_addrs = (Some ex_client, None)"
    by (rule ex_NewClient)
  have 1: "clusterID ex_client = 42"
    using initClusterID_bootstrap [where ?i0.0 = 0 and apis = "\<lambda>i. ex_api" and p = 2 and cid = 42 and pdAddrs = ex_addrs
        and c' = ex_client and e = None and api = ex_api and dial = ex_dial]
      first new by simp
  have 2: "initClusterID (\<lambda>i. ex_api) (ex_client\<lparr>clusterID := 0\<rparr>) = (None, ex_client)"
    using initClusterID_bootstrap [where ?i0.0 = 0 and apis = "\<lambda>i. ex_api" and c = "ex_client\<lparr>clusterID := 0\<rparr>" and p = 2 and cid = 42]
      first' by (simp add: ex_client_def)
  have 3: "initClusterID (\<lambda>i. ex_api_down) ex_client =
             (Some (Trace errFailInitClusterID), ex_client\<lparr>slept := 100\<rparr>)"
    using initClusterID_bootstrap [where apis = "\<lambda>i. ex_api_down" and c = ex_client]
      down' by (simp add: ex_client_def)
  have 4: "NewClient (\<lambda>i. ex_api_down) ex_api ex_dial ex_addrs =
             (None, Some (Trace (Trace errFailInitClusterID)))"
    using initClusterID_bootstrap [where apis = "\<lambda>i. ex_api_down" and pdAddrs = ex_addrs and api = ex_api and dial = ex_dial]
      down by simp
  show ?thesis using new 1 2 3 4 by simp
qed

subsection \<open>Resolving the leader\<close>

text \<open>
  C5 (as amended): \<open>updateLeader\<close> returns an error only if no address answers the
  leader query, or the first address that answers reports a leader other than the
  current one, for which the registry has no connection, and dialing it fails (then the
  client is left as it was). Otherwise it succeeds: it acts on the first address that
  answers, and when the leader reported differs from the current one it makes the
  reported address the leader, adding a connection to the registry if there is none for
  it.
\<close>

theorem updateLeader_resolves:
  "(fst (updateLeader api dial c) \<noteq> None \<longrightarrow>
      no_leader_answer api (urls c) \<or>
      (\<exists>p ldr err. first_leader_answer api (urls c) p ldr \<and> leader c \<noteq> Addr ldr \<and>
         clients c (Addr ldr) = None \<and> dial (Addr ldr) = Inl err \<and>
         updateLeader api dial c = (Some (Trace (Trace err)), c))) \<and>
   (first_leader_answer api (urls c) p ldr \<longrightarrow>
      (leader c = Addr ldr \<longrightarrow> updateLeader api dial c = (None, c)) \<and>
      (leader c \<noteq> Addr ldr \<and> clients c (Addr ldr) = Some pc \<longrightarrow>
         updateLeader api dial c = (None, c\<lparr>leader := Addr ldr\<rparr>)) \<and>
      (leader c \<noteq> Addr ldr \<and> clients c (Addr ldr) = None \<and> dial (Addr ldr) = Inr cc \<longrightarrow>
         updateLeader api dial c =
           (None, c\<lparr>clients := (clients c)(Addr ldr \<mapsto> NewPDClient cc), leader := Addr ldr\<rparr>)))"
proof (intro conjI impI)
  assume e: "fst (updateLeader api dial c) \<noteq> None"
  show "no_leader_answer api (urls c) \<or>
      (\<exists>p ldr err. first_leader_answer api (urls c) p ldr \<and> leader c \<noteq> Addr ldr \<and>
         clients c (Addr ldr) = None \<and> dial (Addr ldr) = Inl err \<and>
         updateLeader api dial c = (Some (Trace (Trace err)), c))"
  proof (cases "no_leader_answer api (urls c)")
    case True
    then show ?thesis by simp
  next
    case False
    then obtain p' ldr' where f: "first_leader_answer api (urls c) p' ldr'"
      using answers_cases [of api "urls c"] by blast
    have u: "updateLeader api dial c = on_answer dial ldr' c" using f by (rule updateLeader_first)
    have "leader c \<noteq> Addr ldr' \<and> clients c (Addr ldr') = None \<and>
          (\<exists>err. dial (Addr ldr') = Inl err \<and> on_answer dial ldr' c = (Some (Trace (Trace err)), c))"
      using e unfolding u on_answer_cases by (auto split: if_splits option.splits sum.splits)
    then show ?thesis using f u by auto
  qed
next
  assume f: "first_leader_answer api (urls c) p ldr" and "leader c = Addr ldr"
  then show "updateLeader api dial c = (None, c)"
    by (simp add: updateLeader_first on_answer_cases)
next
  assume f: "first_leader_answer api (urls c) p ldr"
    and "leader c \<noteq> Addr ldr \<and> clients c (Addr ldr) = Some pc"
  then show "updateLeader api dial c = (None, c\<lparr>leader := Addr ldr\<rparr>)"
    by (simp add: updateLeader_first on_answer_cases)
next
  assume f: "first_leader_answer api (urls c) p ldr"
    and "leader c \<noteq> Addr ldr \<and> clients c (Addr ldr) = None \<and> dial (Addr ldr) = Inr cc"
  then show "updateLeader api dial c =
           (None, c\<lparr>clients := (clients c)(Addr ldr \<mapsto> NewPDClient cc), leader := Addr ldr\<rparr>)"
    by (simp add: updateLeader_first on_answer_cases)
qed

theorem updateLeader_resolves_witness:
  "first_leader_answer ex_api (urls ex_client_old) 2 \<lparr>Addr = ''http://pd3:2379''\<rparr> \<and>
   updateLeader ex_api ex_dial ex_client_old =
     (None, ex_client_old\<lparr>clients := (clients ex_client_old)(''http://pd3:2379'' \<mapsto>
        NewPDClient (ClientConn ''http://pd3:2379'')), leader := ''http://pd3:2379''\<rparr>) \<and>
   no_leader_answer ex_api_down (urls ex_client_old) \<and>
   fst (updateLeader ex_api_down ex_dial ex_client_old) \<noteq> None"
proof -
  have f: "first_leader_answer ex_api (urls ex_client_old) 2 \<lparr>Addr = ''http://pd3:2379''\<rparr>"
    by (simp add: first_leader_answer_def ex_client_old_def ex_client_def all_less_2
        leader_answer_def ex_api_def)
  have d: "leader ex_client_old \<noteq> Addr \<lparr>Addr = ''http://pd3:2379''\<rparr> \<and>
           clients ex_client_old (Addr \<lparr>Addr = ''http://pd3:2379''\<rparr>) = None \<and>
           ex_dial (Addr \<lparr>Addr = ''http://pd3:2379''\<rparr>) = Inr (ClientConn ''http://pd3:2379'')"
    by (simp add: ex_client_old_def ex_client_def ex_dial_def)
  have u: "updateLeader ex_api ex_dial ex_client_old =
          (None, ex_client_old\<lparr>clients := (clients ex_client_old)(''http://pd3:2379'' \<mapsto>
             NewPDClient (ClientConn ''http://pd3:2379'')), leader := ''http://pd3:2379''\<rparr>)"
    using updateLeader_resolves [where api = ex_api and dial = ex_dial and c = ex_client_old and p = 2
        and ldr = "\<lparr>Addr = ''http://pd3:2379''\<rparr>" and cc = "ClientConn ''http://pd3:2379''"] f d
    by simp
  have n: "no_leader_answer ex_api_down (urls ex_client_old)"
    by (simp add: no_leader_answer_def ex_client_old_def ex_client_def all_less_3
        leader_answer_def ex_api_down_def)
  have e: "fst (updateLeader ex_api_down ex_dial ex_client_old) \<noteq> None"
    using n by (simp add: updateLeader_none)
  show ?thesis using f u n e by simp
qed

text \<open>
  The claim as it was stated fails: the third address answers the leader query, and
  \<open>updateLeader\<close> returns the error of the dialer.
\<close>

theorem updateLeader_dial_error_counterexample:
  "first_leader_answer ex_api (urls ex_client_old) 2 \<lparr>Addr = ''http://pd3:2379''\<rparr> \<and>
   updateLeader ex_api (\<lambda>addr. Inl (External ''dial failed'')) ex_client_old =
     (Some (Trace (Trace (External ''dial failed''))), ex_client_old)"
proof -
  have f: "first_leader_answer ex_api (urls ex_client_old) 2 \<lparr>Addr = ''http://pd3:2379''\<rparr>"
    by (simp add: first_leader_answer_def ex_client_old_def ex_client_def all_less_2
        leader_answer_def ex_api_def)
  have "updateLeader ex_api (\<lambda>addr. Inl (External ''dial failed'')) ex_client_old =
          on_answer (\<lambda>addr. Inl (External ''dial failed'')) \<lparr>Addr = ''http://pd3:2379''\<rparr> ex_client_old"
    using f by (rule updateLeader_first)
  then show ?thesis using f
    by (simp add: on_answer_cases ex_client_old_def ex_client_def)
qed

subsection \<open>Store lookup: properties\<close>

text \<open>
  C8: when the remote call of \<open>GetStore\<close> succeeds, a store in the tombstone state
  gives no store and no error, and a response without a store gives no store and the
  error \<open>[pd] store field in rpc response not set\<close>; the client is left as it was.
\<close>

theorem GetStore_tombstone_and_missing:
  "leaderClient c = Some pc \<Longrightarrow> rpc pc storeID = Inr resp \<Longrightarrow>
   (RespStore resp = None \<longrightarrow>
      GetStore rpc storeID c = Ok ((None, Some (New ''[pd] store field in rpc response not set'')), c)) \<and>
   (\<forall>store. RespStore resp = Some store \<and> State store = Tombstone \<longrightarrow>
      GetStore rpc storeID c = Ok ((None, None), c))"
  by (simp add: GetStore_def GetStore_field_def)

theorem GetStore_tombstone_and_missing_witness:
  "GetStore (\<lambda>pc storeID. Inr \<lparr>RespStore = Some \<lparr>StoreId = storeID, StoreAddress = ''tikv1:20160'',
                                                State = Tombstone\<rparr>\<rparr>) 7 ex_client =
     Ok ((None, None), ex_client) \<and>
   GetStore (\<lambda>pc storeID. Inr \<lparr>RespStore = None\<rparr>) 7 ex_client =
     Ok ((None, Some (New ''[pd] store field in rpc response not set'')), ex_client)"
proof -
  have l: "leaderClient ex_client = Some (NewPDClient (ClientConn ''http://pd3:2379''))"
    by (simp add: leaderClient_def ex_client_def)
  have 1: "GetStore (\<lambda>pc storeID. Inr \<lparr>RespStore = Some \<lparr>StoreId = storeID,
               StoreAddress = ''tikv1:20160'', State = Tombstone\<rparr>\<rparr>) 7 ex_client =
             Ok ((None, None), ex_client)"
    using GetStore_tombstone_and_missing [OF l, where
        rpc = "\<lambda>pc storeID. Inr \<lparr>RespStore = Some \<lparr>StoreId = storeID,
                 StoreAddress = ''tikv1:20160'', State = Tombstone\<rparr>\<rparr>" and storeID = 7 and
        resp = "\<lparr>RespStore = Some \<lparr>StoreId = 7, StoreAddress = ''tikv1:20160'', State = Tombstone\<rparr>\<rparr>"]
    by simp
  have 2: "GetStore (\<lambda>pc storeID. Inr \<lparr>RespStore = None\<rparr>) 7 ex_client =
             Ok ((None, Some (New ''[pd] store field in rpc response not set'')), ex_client)"
    using GetStore_tombstone_and_missing [OF l, where rpc = "\<lambda>pc storeID. Inr \<lparr>RespStore = None\<rparr>"
        and storeID = 7 and resp = "\<lparr>RespStore = None\<rparr>"]
    by simp
  show ?thesis using 1 2 by simp
qed

subsection \<open>The loops over a batch\<close>

lemma chan_recv_Cons:
  "buf ch = x # xs \<Longrightarrow> chan_recv ch = Some (x, ch\<lparr>buf := xs\<rparr>)"
  by (simp add: chan_recv_def)

lemma chan_send_make_chan: "0 < n \<Longrightarrow> chan_send v (make_chan n) = Some \<lparr>cap = n, buf = [v]\<rparr>"
  by (simp add: chan_send_def make_chan_def)

lemma tsoRequest_all_updates:
  "r\<lparr>req_physical := p, req_logical := l, req_done := d\<rparr> =
     \<lparr>req_done = d, req_physical = p, req_logical = l\<rparr>"
  by (cases r) simp

lemma finishTSORequest_fresh:
  "req < length (reqs c) \<Longrightarrow> req_done (reqs c ! req) = make_chan 1 \<Longrightarrow>
   finishTSORequest req phys logi err c =
     Ok (c\<lparr>reqs := (reqs c)[req := completed err phys logi], doneLog := doneLog c @ [req]\<rparr>)"
  by (simp add: finishTSORequest_def done_send_def chan_send_make_chan completed_def
      tsoRequest_all_updates)

lemma done_send_fresh:
  "req < length (reqs c) \<Longrightarrow> req_done (reqs c ! req) = make_chan 1 \<Longrightarrow>
   done_send req err c =
     Ok (c\<lparr>reqs := (reqs c)[req := (reqs c ! req)\<lparr>req_done := \<lparr>cap = 1, buf = [err]\<rparr>\<rparr>],
           doneLog := doneLog c @ [req]\<rparr>)"
  by (simp add: done_send_def chan_send_make_chan)

lemma finish_pending_run:
  "buf (tsoRequests c) = xs @ rest \<Longrightarrow> length xs = n \<Longrightarrow> distinct xs \<Longrightarrow>
   (\<forall>r \<in> set xs. r < length (reqs c) \<and> req_done (reqs c ! r) = make_chan 1) \<Longrightarrow>
   \<exists>rs. finish_pending n phys logi c =
           Ok (c\<lparr>tsoRequests := (tsoRequests c)\<lparr>buf := rest\<rparr>, reqs := rs,
                 doneLog := doneLog c @ xs\<rparr>) \<and>
        length rs = length (reqs c) \<and>
        (\<forall>r. r \<notin> set xs \<longrightarrow> rs ! r = reqs c ! r) \<and>
        (\<forall>i < n. rs ! (xs ! i) = completed None phys (logi - of_nat (Suc i)))"
proof (induction n arbitrary: c xs logi)
  case 0
  then have "xs = []" by simp
  then show ?case using 0 by (intro exI [of _ "reqs c"]) simp
next
  case (Suc n)
  then obtain x xs' where xs: "xs = x # xs'" by (cases xs) auto
  have x: "x < length (reqs c)" "req_done (reqs c ! x) = make_chan 1" "x \<notin> set xs'"
    using Suc.prems xs by auto
  let ?c1 = "c\<lparr>tsoRequests := (tsoRequests c)\<lparr>buf := xs' @ rest\<rparr>\<rparr>"
  let ?c2 = "?c1\<lparr>reqs := (reqs ?c1)[x := completed None phys (logi - 1)],
                  doneLog := doneLog ?c1 @ [x]\<rparr>"
  have recv: "chan_recv (tsoRequests c) = Some (x, (tsoRequests c)\<lparr>buf := xs' @ rest\<rparr>)"
    using Suc.prems(1) xs by (simp add: chan_recv_Cons)
  have fin: "finishTSORequest x phys (logi - 1) None ?c1 = Ok ?c2"
    using x by (intro finishTSORequest_fresh) simp_all
  have step: "finish_pending (Suc n) phys logi c = finish_pending n phys (logi - 1) ?c2"
    using recv fin by simp
  have "\<exists>rs. finish_pending n phys (logi - 1) ?c2 =
           Ok (?c2\<lparr>tsoRequests := (tsoRequests ?c2)\<lparr>buf := rest\<rparr>, reqs := rs,
                 doneLog := doneLog ?c2 @ xs'\<rparr>) \<and>
        length rs = length (reqs ?c2) \<and>
        (\<forall>r. r \<notin> set xs' \<longrightarrow> rs ! r = reqs ?c2 ! r) \<and>
        (\<forall>i < n. rs ! (xs' ! i) = completed None phys (logi - 1 - of_nat (Suc i)))"
  proof (rule Suc.IH)
    show "buf (tsoRequests ?c2) = xs' @ rest" by simp
    show "length xs' = n" using Suc.prems(2) xs by simp
    show "distinct xs'" using Suc.prems(3) xs by simp
    show "\<forall>r \<in> set xs'. r < length (reqs ?c2) \<and> req_done (reqs ?c2 ! r) = make_chan 1"
    proof
      fix r assume r: "r \<in> set xs'"
      then have "r \<noteq> x" using x(3) by auto
      then show "r < length (reqs ?c2) \<and> req_done (reqs ?c2 ! r) = make_chan 1"
        using Suc.prems(4) xs r by simp
    qed
  qed
  then obtain rs where rs:
    "finish_pending n phys (logi - 1) ?c2 =
           Ok (?c2\<lparr>tsoRequests := (tsoRequests ?c2)\<lparr>buf := rest\<rparr>, reqs := rs,
                 doneLog := doneLog ?c2 @ xs'\<rparr>)"
    "length rs = length (reqs ?c2)"
    "\<forall>r. r \<notin> set xs' \<longrightarrow> rs ! r = reqs ?c2 ! r"
    "\<forall>i < n. rs ! (xs' ! i) = completed None phys (logi - 1 - of_nat (Suc i))"
    by blast
  have a: "finish_pending (Suc n) phys logi c =
           Ok (c\<lparr>tsoRequests := (tsoRequests c)\<lparr>buf := rest\<rparr>, reqs := rs,
                 doneLog := doneLog c @ xs\<rparr>)"
    using step rs(1) xs by simp
  have b: "length rs = length (reqs c)" using rs(2) by simp
  have c: "\<forall>r. r \<notin> set xs \<longrightarrow> rs ! r = reqs c ! r"
    using rs(3) xs by simp
  have d: "\<forall>i < Suc n. rs ! (xs ! i) = completed None phys (logi - of_nat (Suc i))"
  proof (intro allI impI)
    fix i assume i: "i < Suc n"
    show "rs ! (xs ! i) = completed None phys (logi - of_nat (Suc i))"
    proof (cases i)
      case 0
      then show ?thesis using rs(3) x xs by simp
    next
      case (Suc i')
      then have "i' < n" using i by simp
      then have "rs ! (xs' ! i') = completed None phys (logi - 1 - of_nat (Suc i'))"
        using rs(4) by simp
      then show ?thesis using Suc xs by (simp add: algebra_simps)
    qed
  qed
  show ?case using a b c d by blast
qed

lemma finish_failed_run:
  "buf (tsoRequests c) = xs @ rest \<Longrightarrow> length xs = n \<Longrightarrow> distinct xs \<Longrightarrow>
   (\<forall>r \<in> set xs. r < length (reqs c) \<and> req_done (reqs c ! r) = make_chan 1) \<Longrightarrow>
   \<exists>rs. finish_failed n err c =
           Ok (c\<lparr>tsoRequests := (tsoRequests c)\<lparr>buf := rest\<rparr>, reqs := rs,
                 doneLog := doneLog c @ xs\<rparr>) \<and>
        length rs = length (reqs c) \<and>
        (\<forall>r. r \<notin> set xs \<longrightarrow> rs ! r = reqs c ! r) \<and>
        (\<forall>i < n. rs ! (xs ! i) = completed (Some (Trace err)) 0 0)"
proof (induction n arbitrary: c xs)
  case 0
  then have "xs = []" by simp
  then show ?case using 0 by (intro exI [of _ "reqs c"]) simp
next
  case (Suc n)
  then obtain x xs' where xs: "xs = x # xs'" by (cases xs) auto
  have x: "x < length (reqs c)" "req_done (reqs c ! x) = make_chan 1" "x \<notin> set xs'"
    using Suc.prems xs by auto
  let ?c1 = "c\<lparr>tsoRequests := (tsoRequests c)\<lparr>buf := xs' @ rest\<rparr>\<rparr>"
  let ?c2 = "?c1\<lparr>reqs := (reqs ?c1)[x := completed (Some (Trace err)) 0 0],
                  doneLog := doneLog ?c1 @ [x]\<rparr>"
  have recv: "chan_recv (tsoRequests c) = Some (x, (tsoRequests c)\<lparr>buf := xs' @ rest\<rparr>)"
    using Suc.prems(1) xs by (simp add: chan_recv_Cons)
  have fin: "finishTSORequest x 0 0 (Some (Trace err)) ?c1 = Ok ?c2"
    using x by (intro finishTSORequest_fresh) simp_all
  have step: "finish_failed (Suc n) err c = finish_failed n err ?c2"
    using recv fin by simp
  have "\<exists>rs. finish_failed n err ?c2 =
           Ok (?c2\<lparr>tsoRequests := (tsoRequests ?c2)\<lparr>buf := rest\<rparr>, reqs := rs,
                 doneLog := doneLog ?c2 @ xs'\<rparr>) \<and>
        length rs = length (reqs ?c2) \<and>
        (\<forall>r. r \<notin> set xs' \<longrightarrow> rs ! r = reqs ?c2 ! r) \<and>
        (\<forall>i < n. rs ! (xs' ! i) = completed (Some (Trace err)) 0 0)"
  proof (rule Suc.IH)
    show "buf (tsoRequests ?c2) = xs' @ rest" by simp
    show "length xs' = n" using Suc.prems(2) xs by simp
    show "distinct xs'" using Suc.prems(3) xs by simp
    show "\<forall>r \<in> set xs'. r < length (reqs ?c2) \<and> req_done (reqs ?c2 ! r) = make_chan 1"
    proof
      fix r assume r: "r \<in> set xs'"
      then have "r \<noteq> x" using x(3) by auto
      then show "r < length (reqs ?c2) \<and> req_done (reqs ?c2 ! r) = make_chan 1"
        using Suc.prems(4) xs r by simp
    qed
  qed
  then obtain rs where rs:
    "finish_failed n err ?c2 =
           Ok (?c2\<lparr>tsoRequests := (tsoRequests ?c2)\<lparr>buf := rest\<rparr>, reqs := rs,
                 doneLog := doneLog ?c2 @ xs'\<rparr>)"
    "length rs = length (reqs ?c2)"
    "\<forall>r. r \<notin> set xs' \<longrightarrow> rs ! r = reqs ?c2 ! r"
    "\<forall>i < n. rs ! (xs' ! i) = completed (Some (Trace err)) 0 0"
    by blast
  have a: "finish_failed (Suc n) err c =
           Ok (c\<lparr>tsoRequests := (tsoRequests c)\<lparr>buf := rest\<rparr>, reqs := rs,
                 doneLog := doneLog c @ xs\<rparr>)"
    using step rs(1) xs by simp
  have b: "length rs = length (reqs c)" using rs(2) by simp
  have c: "\<forall>r. r \<notin> set xs \<longrightarrow> rs ! r = reqs c ! r"
    using rs(3) xs by simp
  have d: "\<forall>i < Suc n. rs ! (xs ! i) = completed (Some (Trace err)) 0 0"
  proof (intro allI impI)
    fix i assume i: "i < Suc n"
    show "rs ! (xs ! i) = completed (Some (Trace err)) 0 0"
    proof (cases i)
      case 0
      then show ?thesis using rs(3) x xs by simp
    next
      case (Suc i')
      then have "i' < n" using i by simp
      then show ?thesis using rs(4) Suc xs by simp
    qed
  qed
  show ?case using a b c d by blast
qed

lemma arrive_eq:
  "arrive n c =
     c\<lparr>reqs := reqs c @ replicate (admitted n c) fresh_request,
       tsoRequests := (tsoRequests c)\<lparr>buf := buf (tsoRequests c) @ late_requests n c\<rparr>\<rparr>"
proof (induction n arbitrary: c)
  case 0
  show ?case by (simp add: admitted_def late_requests_def)
next
  case (Suc n)
  show ?case
  proof (cases "length (buf (tsoRequests c)) < cap (tsoRequests c)")
    case False
    then have "GetTS_enqueue c = Blocked"
      by (simp add: GetTS_enqueue_def Let_def chan_send_def)
    moreover have "admitted (Suc n) c = 0" using False by (simp add: admitted_def)
    ultimately show ?thesis by (simp add: late_requests_def)
  next
    case True
    let ?c' = "c\<lparr>reqs := reqs c @ [fresh_request],
                  tsoRequests := (tsoRequests c)\<lparr>buf := buf (tsoRequests c) @ [length (reqs c)]\<rparr>\<rparr>"
    have e: "GetTS_enqueue c = Ok (length (reqs c), ?c')"
      using True by (simp add: GetTS_enqueue_def Let_def chan_send_def fresh_request_def)
    have ad: "admitted (Suc n) c = Suc (admitted n ?c')"
      using True by (auto simp: admitted_def min_def)
    have "arrive (Suc n) c = arrive n ?c'" using e by simp
    also have "\<dots> = ?c'\<lparr>reqs := reqs ?c' @ replicate (admitted n ?c') fresh_request,
       tsoRequests := (tsoRequests ?c')\<lparr>buf := buf (tsoRequests ?c') @ late_requests n ?c'\<rparr>\<rparr>"
      by (rule Suc.IH)
    also have "\<dots> = c\<lparr>reqs := reqs c @ replicate (admitted (Suc n) c) fresh_request,
       tsoRequests := (tsoRequests c)\<lparr>buf := buf (tsoRequests c) @ late_requests (Suc n) c\<rparr>\<rparr>"
      using ad by (simp add: late_requests_def upt_conv_Cons)
    finally show ?thesis .
  qed
qed

lemma arrive_late:
  "arrive n c =
     c\<lparr>reqs := reqs c @ replicate (admitted n c) fresh_request,
       tsoRequests := (tsoRequests c)\<lparr>buf := buf (tsoRequests c) @
         [length (reqs c) ..< length (reqs c) + admitted n c]\<rparr>\<rparr>"
  by (simp add: arrive_eq late_requests_def)

lemma Close_loop_run:
  "buf (tsoRequests c) = xs @ rest \<Longrightarrow> length xs = n \<Longrightarrow> distinct xs \<Longrightarrow>
   (\<forall>r \<in> set xs. r < length (reqs c) \<and> req_done (reqs c ! r) = make_chan 1) \<Longrightarrow>
   length xs + length rest \<le> cap (tsoRequests c) \<Longrightarrow>
   \<exists>rs m. Close_loop arr n c =
           Ok (c\<lparr>tsoRequests := (tsoRequests c)\<lparr>buf := rest @
                   [length (reqs c) ..< length (reqs c) + m]\<rparr>,
                 reqs := rs, doneLog := doneLog c @ xs\<rparr>) \<and>
        length rs = length (reqs c) + m \<and>
        (\<forall>r < length (reqs c). r \<notin> set xs \<longrightarrow> rs ! r = reqs c ! r) \<and>
        (\<forall>r. length (reqs c) \<le> r \<and> r < length (reqs c) + m \<longrightarrow> rs ! r = fresh_request) \<and>
        (\<forall>i < n. rs ! (xs ! i) =
           (reqs c ! (xs ! i))\<lparr>req_done := \<lparr>cap = 1, buf = [Some (Trace errClosing)]\<rparr>\<rparr>) \<and>
        length rest + m \<le> cap (tsoRequests c) \<and>
        m \<le> sum arr {..<n} \<and>
        ((\<exists>k < n. 0 < arr k) \<longrightarrow> 0 < m)"
proof (induction n arbitrary: c xs rest)
  case 0
  then have "xs = []" by simp
  then show ?case using 0 by (intro exI [of _ "reqs c"] exI [of _ 0]) auto
next
  case (Suc n)
  then obtain x xs' where xs: "xs = x # xs'" by (cases xs) auto
  have x: "x < length (reqs c)" "req_done (reqs c ! x) = make_chan 1" "x \<notin> set xs'"
    using Suc.prems xs by auto
  have n: "length xs' = n" using Suc.prems(2) xs by simp
  have old: "\<forall>r \<in> set xs'. r < length (reqs c) \<and> req_done (reqs c ! r) = make_chan 1 \<and> r \<noteq> x"
    using Suc.prems(4) x(3) xs by auto
  have room: "Suc (n + length rest) \<le> cap (tsoRequests c)"
    using Suc.prems(5) xs n by simp
  let ?d = "\<lparr>cap = 1, buf = [Some (Trace errClosing)]\<rparr>"
  let ?L = "length (reqs c)"
  let ?c1 = "c\<lparr>tsoRequests := (tsoRequests c)\<lparr>buf := xs' @ rest\<rparr>\<rparr>"
  let ?k = "admitted (arr n) ?c1"
  let ?rest = "rest @ [?L ..< ?L + ?k]"
  let ?ca = "c\<lparr>reqs := reqs c @ replicate ?k fresh_request,
               tsoRequests := (tsoRequests c)\<lparr>buf := xs' @ ?rest\<rparr>\<rparr>"
  let ?c2 = "?ca\<lparr>reqs := (reqs ?ca)[x := (reqs ?ca ! x)\<lparr>req_done := ?d\<rparr>],
                  doneLog := doneLog ?ca @ [x]\<rparr>"
  have k: "?k = min (arr n) (cap (tsoRequests c) - (n + length rest))"
    using n by (simp add: admitted_def)
  have k_le: "?k \<le> arr n" "n + length rest + ?k \<le> cap (tsoRequests c)"
    using room unfolding k by simp_all
  have k_pos: "0 < arr n \<Longrightarrow> 0 < ?k" using room unfolding k by simp
  have recv: "chan_recv (tsoRequests c) = Some (x, (tsoRequests c)\<lparr>buf := xs' @ rest\<rparr>)"
    using Suc.prems(1) xs by (simp add: chan_recv_Cons)
  have arrv: "arrive (arr n) ?c1 = ?ca" by (simp add: arrive_late)
  have fin: "done_send x (Some (Trace errClosing)) ?ca = Ok ?c2"
    using x by (intro done_send_fresh) (simp_all add: nth_append)
  have step: "Close_loop arr (Suc n) c = Close_loop arr n ?c2"
    using recv arrv fin by simp
  have len2: "length (reqs ?c2) = ?L + ?k" by simp
  have "\<exists>rs m. Close_loop arr n ?c2 =
           Ok (?c2\<lparr>tsoRequests := (tsoRequests ?c2)\<lparr>buf := ?rest @
                   [length (reqs ?c2) ..< length (reqs ?c2) + m]\<rparr>,
                 reqs := rs, doneLog := doneLog ?c2 @ xs'\<rparr>) \<and>
        length rs = length (reqs ?c2) + m \<and>
        (\<forall>r < length (reqs ?c2). r \<notin> set xs' \<longrightarrow> rs ! r = reqs ?c2 ! r) \<and>
        (\<forall>r. length (reqs ?c2) \<le> r \<and> r < length (reqs ?c2) + m \<longrightarrow> rs ! r = fresh_request) \<and>
        (\<forall>i < n. rs ! (xs' ! i) = (reqs ?c2 ! (xs' ! i))\<lparr>req_done := ?d\<rparr>) \<and>
        length ?rest + m \<le> cap (tsoRequests ?c2) \<and>
        m \<le> sum arr {..<n} \<and>
        ((\<exists>k < n. 0 < arr k) \<longrightarrow> 0 < m)"
  proof (rule Suc.IH)
    show "buf (tsoRequests ?c2) = xs' @ ?rest" by simp
    show "length xs' = n" by (rule n)
    show "distinct xs'" using Suc.prems(3) xs by simp
    show "\<forall>r \<in> set xs'. r < length (reqs ?c2) \<and> req_done (reqs ?c2 ! r) = make_chan 1"
    proof
      fix r assume "r \<in> set xs'"
      then have r: "r < ?L" "req_done (reqs c ! r) = make_chan 1" "r \<noteq> x" using old by auto
      show "r < length (reqs ?c2) \<and> req_done (reqs ?c2 ! r) = make_chan 1"
        using r by (simp add: nth_append)
    qed
    show "length xs' + length ?rest \<le> cap (tsoRequests ?c2)"
      using k_le(2) n by simp
  qed
  then obtain rs m where rs:
    "Close_loop arr n ?c2 =
           Ok (?c2\<lparr>tsoRequests := (tsoRequests ?c2)\<lparr>buf := ?rest @
                   [length (reqs ?c2) ..< length (reqs ?c2) + m]\<rparr>,
                 reqs := rs, doneLog := doneLog ?c2 @ xs'\<rparr>)"
    "length rs = length (reqs ?c2) + m"
    "\<forall>r < length (reqs ?c2). r \<notin> set xs' \<longrightarrow> rs ! r = reqs ?c2 ! r"
    "\<forall>r. length (reqs ?c2) \<le> r \<and> r < length (reqs ?c2) + m \<longrightarrow> rs ! r = fresh_request"
    "\<forall>i < n. rs ! (xs' ! i) = (reqs ?c2 ! (xs' ! i))\<lparr>req_done := ?d\<rparr>"
    "length ?rest + m \<le> cap (tsoRequests ?c2)"
    "m \<le> sum arr {..<n}"
    "(\<exists>k < n. 0 < arr k) \<longrightarrow> 0 < m"
    by (elim exE conjE) (rule that)
  have upt: "[?L ..< ?L + ?k] @ [?L + ?k ..< ?L + ?k + m] = [?L ..< ?L + (?k + m)]"
    using upt_add_eq_append [of ?L "?L + ?k" m] by (simp add: add.assoc)
  have a: "Close_loop arr (Suc n) c =
           Ok (c\<lparr>tsoRequests := (tsoRequests c)\<lparr>buf := rest @ [?L ..< ?L + (?k + m)]\<rparr>,
                 reqs := rs, doneLog := doneLog c @ xs\<rparr>)"
    unfolding step rs(1) using xs upt by simp
  have b: "length rs = ?L + (?k + m)" using rs(2) by simp
  have c: "\<forall>r < ?L. r \<notin> set xs \<longrightarrow> rs ! r = reqs c ! r"
  proof (intro allI impI)
    fix r assume r: "r < ?L" "r \<notin> set xs"
    then have "rs ! r = reqs ?c2 ! r" using rs(3) xs by simp
    then show "rs ! r = reqs c ! r" using r xs by (simp add: nth_append)
  qed
  have d: "\<forall>r. ?L \<le> r \<and> r < ?L + (?k + m) \<longrightarrow> rs ! r = fresh_request"
  proof (intro allI impI)
    fix r assume r: "?L \<le> r \<and> r < ?L + (?k + m)"
    show "rs ! r = fresh_request"
    proof (cases "r < ?L + ?k")
      case True
      have "r \<notin> set xs'" "r \<noteq> x" using old x(1) r by auto
      then have "rs ! r = reqs ?c2 ! r" using rs(3) True by simp
      then show ?thesis using r True \<open>r \<noteq> x\<close> by (simp add: nth_append)
    next
      case False
      then show ?thesis using rs(4) r by simp
    qed
  qed
  have e: "\<forall>i < Suc n. rs ! (xs ! i) = (reqs c ! (xs ! i))\<lparr>req_done := ?d\<rparr>"
  proof (intro allI impI)
    fix i assume i: "i < Suc n"
    show "rs ! (xs ! i) = (reqs c ! (xs ! i))\<lparr>req_done := ?d\<rparr>"
    proof (cases i)
      case 0
      have "rs ! x = reqs ?c2 ! x" using rs(3) x(1) x(3) by simp
      then show ?thesis using 0 x(1) xs by (simp add: nth_append)
    next
      case (Suc i')
      then have i': "i' < n" using i by simp
      then have "xs' ! i' \<in> set xs'" using n by simp
      then have "xs' ! i' \<noteq> x" "xs' ! i' < ?L" using old by auto
      then show ?thesis using rs(5) i' Suc xs by (simp add: nth_append)
    qed
  qed
  have f: "length rest + (?k + m) \<le> cap (tsoRequests c)" using rs(6) by simp
  have g: "?k + m \<le> sum arr {..<Suc n}" using rs(7) k_le(1) by simp
  have h: "(\<exists>j < Suc n. 0 < arr j) \<longrightarrow> 0 < ?k + m"
  proof
    assume "\<exists>j < Suc n. 0 < arr j"
    then obtain j where j: "j < Suc n" "0 < arr j" by (elim exE conjE) (rule that)
    show "0 < ?k + m"
    proof (cases "j = n")
      case True
      then show ?thesis using k_pos j(2) by simp
    next
      case False
      then have "j < n" using j(1) by simp
      then have "0 < m" using rs(8) j(2) by blast
      then show ?thesis by simp
    qed
  qed
  show ?case by (intro exI [of _ rs] exI [of _ "?k + m"] conjI) (fact a b c d e f g h)+
qed

subsection \<open>One call of processTSORequests\<close>

lemma chan_eq_make_chan: "cap (ch :: 'a chan) = n \<Longrightarrow> buf ch = [] \<Longrightarrow> ch = make_chan n"
  by (cases ch) (simp add: make_chan_def)

lemma queue_inv_fresh:
  "queue_inv c \<Longrightarrow> r < length (reqs c) \<Longrightarrow> r \<notin> set (doneLog c) \<Longrightarrow>
   req_done (reqs c ! r) = make_chan 1"
  by (rule chan_eq_make_chan) (simp_all add: queue_inv_def)

lemma processTSORequests_unfold:
  "leaderClient c = Some pc \<Longrightarrow>
   processTSORequests env first c =
     (let k = length (buf (tsoRequests c));
          c1 = arrive (arrivals env) (c\<lparr>tsoLog := tsoLog c @ [(pc, tso_request c)]\<rparr>)
      in case tso_verdict (Tso env pc (tso_request c)) (Suc k) of
           Inl e \<Rightarrow>
             (case finishTSORequest first 0 0 (Some (Trace e)) c1 of
                Ok c2 \<Rightarrow> finish_failed k e c2
              | Blocked \<Rightarrow> Blocked
              | Panic \<Rightarrow> Panic)
         | Inr (p, l) \<Rightarrow>
             (case finishTSORequest first p l None c1 of
                Ok c2 \<Rightarrow> finish_pending k p l c2
              | Blocked \<Rightarrow> Blocked
              | Panic \<Rightarrow> Panic))"
  by (simp add: processTSORequests_def Let_def tso_verdict_def tso_request_def chan_len_def
      GetCount_def GetTimestamp_def split: sum.splits cong: result.case_cong)

lemma processTSORequests_run:
  assumes inv: "queue_inv c" and fl: "in_flight first c" and lc: "leaderClient c = Some pc"
  shows "\<exists>rs. processTSORequests env first c =
           Ok (c\<lparr>tsoRequests := (tsoRequests c)\<lparr>buf := late_requests (arrivals env) c\<rparr>,
                 reqs := rs,
                 tsoLog := tsoLog c @ [(pc, tso_request c)],
                 doneLog := doneLog c @ first # buf (tsoRequests c)\<rparr>) \<and>
        length rs = length (reqs c) + admitted (arrivals env) c \<and>
        (\<forall>r < length (reqs c). r \<notin> set (first # buf (tsoRequests c)) \<longrightarrow> rs ! r = reqs c ! r) \<and>
        (\<forall>r \<in> set (late_requests (arrivals env) c). rs ! r = fresh_request) \<and>
        (\<forall>i < Suc (length (buf (tsoRequests c))).
           rs ! ((first # buf (tsoRequests c)) ! i) =
             expected (tso_verdict (Tso env pc (tso_request c)) (Suc (length (buf (tsoRequests c))))) i)"
proof -
  let ?q = "buf (tsoRequests c)"
  let ?k = "length ?q"
  let ?m = "admitted (arrivals env) c"
  let ?late = "late_requests (arrivals env) c"
  let ?v = "tso_verdict (Tso env pc (tso_request c)) (Suc ?k)"
  let ?c0 = "c\<lparr>tsoLog := tsoLog c @ [(pc, tso_request c)]\<rparr>"
  let ?rs1 = "reqs c @ replicate ?m fresh_request"
  let ?c1 = "c\<lparr>tsoLog := tsoLog c @ [(pc, tso_request c)], reqs := ?rs1,
               tsoRequests := (tsoRequests c)\<lparr>buf := ?q @ ?late\<rparr>\<rparr>"
  let ?c2 = "?c1\<lparr>reqs := ?rs1[first := expected ?v 0], doneLog := doneLog c @ [first]\<rparr>"
  have first: "first < length (reqs c)" "first \<notin> set ?q" "first \<notin> set (doneLog c)"
    using fl by (simp_all add: in_flight_def)
  have q: "distinct ?q" "\<forall>r \<in> set ?q. r < length (reqs c) \<and> r \<notin> set (doneLog c)"
    using inv by (simp_all add: queue_inv_def)
  have arr: "arrive (arrivals env) ?c0 = ?c1"
    by (simp add: arrive_eq admitted_def late_requests_def)
  have fresh1: "req_done (reqs ?c1 ! first) = make_chan 1"
    using queue_inv_fresh [OF inv first(1) first(3)] first(1) by (simp add: nth_append)
  have fin: "\<And>err p l. finishTSORequest first p l err ?c1 =
               Ok (?c1\<lparr>reqs := ?rs1[first := completed err p l], doneLog := doneLog c @ [first]\<rparr>)"
    using finishTSORequest_fresh [of first ?c1, OF _ fresh1] first(1) by simp
  have loop_pre: "buf (tsoRequests ?c2) = ?q @ ?late" "length ?q = ?k" "distinct ?q"
    "\<forall>r \<in> set ?q. r < length (reqs ?c2) \<and> req_done (reqs ?c2 ! r) = make_chan 1"
  proof -
    show "buf (tsoRequests ?c2) = ?q @ ?late" by simp
    show "length ?q = ?k" by simp
    show "distinct ?q" by (rule q(1))
    show "\<forall>r \<in> set ?q. r < length (reqs ?c2) \<and> req_done (reqs ?c2 ! r) = make_chan 1"
    proof
      fix r assume r: "r \<in> set ?q"
      then have r1: "r < length (reqs c)" "r \<notin> set (doneLog c)" "r \<noteq> first"
        using q(2) first(2) by auto
      have "req_done (reqs c ! r) = make_chan 1" using inv r1(1) r1(2) by (rule queue_inv_fresh)
      then show "r < length (reqs ?c2) \<and> req_done (reqs ?c2 ! r) = make_chan 1"
        using r1 by (simp add: nth_append)
    qed
  qed
  have "\<exists>rs. processTSORequests env first c =
           Ok (?c2\<lparr>tsoRequests := (tsoRequests ?c2)\<lparr>buf := ?late\<rparr>, reqs := rs,
                 doneLog := doneLog ?c2 @ ?q\<rparr>) \<and>
        length rs = length (reqs ?c2) \<and>
        (\<forall>r. r \<notin> set ?q \<longrightarrow> rs ! r = reqs ?c2 ! r) \<and>
        (\<forall>i < ?k. rs ! (?q ! i) = expected ?v (Suc i))"
  proof (cases ?v)
    case (Inl e)
    have p: "processTSORequests env first c = finish_failed ?k e ?c2"
      using Inl arr fin by (simp add: processTSORequests_unfold [OF lc] expected_def)
    show ?thesis
      using finish_failed_run [OF loop_pre, of e] unfolding p
      by (simp add: expected_def Inl)
  next
    case (Inr pl)
    obtain p l where pl: "pl = (p, l)" by (cases pl)
    have pr: "processTSORequests env first c = finish_pending ?k p l ?c2"
      using Inr pl arr fin by (simp add: processTSORequests_unfold [OF lc] expected_def)
    show ?thesis
      using finish_pending_run [OF loop_pre, of p l] unfolding pr
      by (simp add: expected_def Inr pl)
  qed
  then obtain rs where rs:
    "processTSORequests env first c =
           Ok (?c2\<lparr>tsoRequests := (tsoRequests ?c2)\<lparr>buf := ?late\<rparr>, reqs := rs,
                 doneLog := doneLog ?c2 @ ?q\<rparr>)"
    "length rs = length (reqs ?c2)"
    "\<forall>r. r \<notin> set ?q \<longrightarrow> rs ! r = reqs ?c2 ! r"
    "\<forall>i < ?k. rs ! (?q ! i) = expected ?v (Suc i)"
    by blast
  have a: "processTSORequests env first c =
           Ok (c\<lparr>tsoRequests := (tsoRequests c)\<lparr>buf := ?late\<rparr>, reqs := rs,
                 tsoLog := tsoLog c @ [(pc, tso_request c)],
                 doneLog := doneLog c @ first # ?q\<rparr>)"
    using rs(1) by simp
  have b: "length rs = length (reqs c) + ?m" using rs(2) by simp
  have c: "\<forall>r < length (reqs c). r \<notin> set (first # ?q) \<longrightarrow> rs ! r = reqs c ! r"
    using rs(3) by (simp add: nth_append)
  have d: "\<forall>r \<in> set ?late. rs ! r = fresh_request"
  proof
    fix r assume r: "r \<in> set ?late"
    then have r1: "length (reqs c) \<le> r" "r < length (reqs c) + ?m"
      by (simp_all add: late_requests_def)
    then have "r \<notin> set ?q" "r \<noteq> first" using q(2) first(1) by auto
    then have "rs ! r = ?rs1 ! r" using rs(3) by simp
    then show "rs ! r = fresh_request" using r1 by (simp add: nth_append)
  qed
  have e: "\<forall>i < Suc ?k. rs ! ((first # ?q) ! i) = expected ?v i"
  proof (intro allI impI)
    fix i assume i: "i < Suc ?k"
    show "rs ! ((first # ?q) ! i) = expected ?v i"
    proof (cases i)
      case 0
      then show ?thesis using rs(3) first by simp
    next
      case (Suc i')
      then show ?thesis using rs(4) i by simp
    qed
  qed
  show ?thesis using a b c d e by blast
qed

subsection \<open>The invariants\<close>

lemma queue_inv_cong:
  "tsoRequests c' = tsoRequests c \<Longrightarrow> reqs c' = reqs c \<Longrightarrow> doneLog c' = doneLog c \<Longrightarrow>
   queue_inv c' = queue_inv c"
  by (simp add: queue_inv_def)

lemma expected_cap: "cap (req_done (expected v i)) = 1"
  by (simp add: expected_def completed_def split: sum.splits prod.splits)

lemma processTSORequests_inv:
  assumes inv: "queue_inv c" and fl: "in_flight first c" and lc: "leaderClient c = Some pc"
    and run: "processTSORequests env first c = Ok c'"
  shows "queue_inv c'"
proof -
  let ?q = "buf (tsoRequests c)"
  let ?late = "late_requests (arrivals env) c"
  let ?m = "admitted (arrivals env) c"
  let ?v = "tso_verdict (Tso env pc (tso_request c)) (Suc (length ?q))"
  obtain rs where rs:
    "processTSORequests env first c =
           Ok (c\<lparr>tsoRequests := (tsoRequests c)\<lparr>buf := ?late\<rparr>, reqs := rs,
                 tsoLog := tsoLog c @ [(pc, tso_request c)],
                 doneLog := doneLog c @ first # ?q\<rparr>)"
    "length rs = length (reqs c) + ?m"
    "\<forall>r < length (reqs c). r \<notin> set (first # ?q) \<longrightarrow> rs ! r = reqs c ! r"
    "\<forall>r \<in> set ?late. rs ! r = fresh_request"
    "\<forall>i < Suc (length ?q). rs ! ((first # ?q) ! i) = expected ?v i"
    using processTSORequests_run [OF inv fl lc, of env] by blast
  have c': "c' = c\<lparr>tsoRequests := (tsoRequests c)\<lparr>buf := ?late\<rparr>, reqs := rs,
                 tsoLog := tsoLog c @ [(pc, tso_request c)],
                 doneLog := doneLog c @ first # ?q\<rparr>"
    using run rs(1) by simp
  have first: "first < length (reqs c)" "first \<notin> set ?q" "first \<notin> set (doneLog c)"
    using fl by (simp_all add: in_flight_def)
  have i1: "cap (tsoRequests c) = maxMergeTSORequests" "length ?q \<le> maxMergeTSORequests"
    "distinct ?q" "\<forall>r \<in> set ?q. r < length (reqs c) \<and> r \<notin> set (doneLog c)"
    "distinct (doneLog c)" "\<forall>r \<in> set (doneLog c). r < length (reqs c)"
    "\<forall>r < length (reqs c). cap (req_done (reqs c ! r)) = 1 \<and>
        (r \<notin> set (doneLog c) \<longrightarrow> buf (req_done (reqs c ! r)) = [])"
    using inv by (simp_all add: queue_inv_def)
  have late: "\<forall>r. r \<in> set ?late \<longleftrightarrow> length (reqs c) \<le> r \<and> r < length (reqs c) + ?m"
    by (auto simp: late_requests_def)
  have m: "?m \<le> maxMergeTSORequests" using i1(1) by (simp add: admitted_def)
  have a: "length ?late \<le> maxMergeTSORequests" using m by (simp add: late_requests_def)
  have b: "distinct ?late" by (simp add: late_requests_def)
  have c: "\<forall>r \<in> set ?late. r < length rs \<and> r \<notin> set (doneLog c @ first # ?q)"
    using late rs(2) i1(4) i1(6) first(1) by fastforce
  have d: "distinct (doneLog c @ first # ?q)"
    using i1(3) i1(4) i1(5) first by auto
  have e: "\<forall>r \<in> set (doneLog c @ first # ?q). r < length rs"
    using i1(4) i1(6) first(1) rs(2) by fastforce
  have f: "\<forall>r < length rs. cap (req_done (rs ! r)) = 1 \<and>
        (r \<notin> set (doneLog c @ first # ?q) \<longrightarrow> buf (req_done (rs ! r)) = [])"
  proof (intro allI impI)
    fix r assume r: "r < length rs"
    consider (batch) "r \<in> set (first # ?q)"
      | (old) "r < length (reqs c)" "r \<notin> set (first # ?q)"
      | (new) "r \<in> set ?late"
      using r rs(2) late by (metis not_le_imp_less)
    then show "cap (req_done (rs ! r)) = 1 \<and>
        (r \<notin> set (doneLog c @ first # ?q) \<longrightarrow> buf (req_done (rs ! r)) = [])"
    proof cases
      case batch
      then obtain i where "i < length (first # ?q)" "(first # ?q) ! i = r"
        by (meson in_set_conv_nth)
      then have "rs ! r = expected ?v i" using rs(5) by auto
      then show ?thesis using batch by (auto simp: expected_cap)
    next
      case old
      then have "rs ! r = reqs c ! r" using rs(3) by simp
      then show ?thesis using i1(7) old(1) by simp
    next
      case new
      then have "rs ! r = fresh_request" using rs(4) by simp
      then show ?thesis by (simp add: fresh_request_def make_chan_def)
    qed
  qed
  show ?thesis
    unfolding c' queue_inv_def using i1(1) a b c d e f by simp
qed

lemma processTSORequests_frame:
  assumes inv: "queue_inv c" and fl: "in_flight first c" and lc: "leaderClient c = Some pc"
    and run: "processTSORequests env first c = Ok c'"
  shows "checkLeaderCh c' = checkLeaderCh c \<and> clients c' = clients c \<and> leader c' = leader c \<and>
         quit c' = quit c \<and> wg c' = wg c \<and> clusterID c' = clusterID c \<and> urls c' = urls c"
proof -
  obtain rs where
    "processTSORequests env first c =
           Ok (c\<lparr>tsoRequests := (tsoRequests c)\<lparr>buf := late_requests (arrivals env) c\<rparr>, reqs := rs,
                 tsoLog := tsoLog c @ [(pc, tso_request c)],
                 doneLog := doneLog c @ first # buf (tsoRequests c)\<rparr>)"
    using processTSORequests_run [OF inv fl lc, of env] by blast
  then show ?thesis using run by auto
qed

lemma dequeue_inv:
  assumes inv: "queue_inv c" and q: "buf (tsoRequests c) = first # pending"
  shows "queue_inv (c\<lparr>tsoRequests := (tsoRequests c)\<lparr>buf := pending\<rparr>\<rparr>)"
    and "in_flight first (c\<lparr>tsoRequests := (tsoRequests c)\<lparr>buf := pending\<rparr>\<rparr>)"
  using inv q by (simp_all add: queue_inv_def in_flight_def)

lemma tsLoop_iter_request:
  "buf (tsoRequests c) = first # pending \<Longrightarrow>
   tsLoop_iter TsoRequestCase env c =
     (case processTSORequests env first (c\<lparr>tsoRequests := (tsoRequests c)\<lparr>buf := pending\<rparr>\<rparr>) of
        Ok c' \<Rightarrow> Ok (Continue c')
      | Blocked \<Rightarrow> Blocked
      | Panic \<Rightarrow> Panic)"
  by (simp add: tsLoop_iter_def chan_recv_Cons)

lemma GetTS_enqueue_inv:
  assumes inv: "queue_inv c" and e: "GetTS_enqueue c = Ok (req, c')"
  shows "queue_inv c'"
proof -
  have lt: "length (buf (tsoRequests c)) < cap (tsoRequests c)"
    using e by (auto simp: GetTS_enqueue_def Let_def chan_send_def split: if_splits)
  have c': "c' = c\<lparr>reqs := reqs c @ [fresh_request],
                  tsoRequests := (tsoRequests c)\<lparr>buf := buf (tsoRequests c) @ [length (reqs c)]\<rparr>\<rparr>"
    using e lt by (auto simp: GetTS_enqueue_def Let_def chan_send_def fresh_request_def)
  show ?thesis
    unfolding c' using inv lt
    by (auto simp: queue_inv_def nth_append fresh_request_def make_chan_def less_Suc_eq)
qed

lemma scheduleCheckLeader_frame:
  "tsoRequests (scheduleCheckLeader c) = tsoRequests c \<and> reqs (scheduleCheckLeader c) = reqs c \<and>
   doneLog (scheduleCheckLeader c) = doneLog c"
  by (simp add: scheduleCheckLeader_def split: option.splits)

lemma scheduleCheckLeader_queue_inv: "queue_inv (scheduleCheckLeader c) = queue_inv c"
  by (rule queue_inv_cong) (simp_all add: scheduleCheckLeader_frame)

lemma GetTS_select_inv:
  assumes inv: "queue_inv c" and s: "GetTS_select pick ctx_err req c = Ok (res, c')"
  shows "queue_inv c'"
proof (cases pick)
  case CtxDoneCase
  then have "c' = c" using s by (auto simp: GetTS_select_def split: if_splits option.splits)
  then show ?thesis using inv by simp
next
  case DoneCase
  have req: "req < length (reqs c)" using s by (auto simp: GetTS_select_def split: if_splits)
  obtain err ch where r: "chan_recv (req_done (reqs c ! req)) = Some (err, ch)"
    using s DoneCase req by (auto simp: GetTS_select_def split: option.splits)
  let ?c1 = "c\<lparr>reqs := (reqs c)[req := (reqs c ! req)\<lparr>req_done := ch\<rparr>]\<rparr>"
  have ch: "cap ch = cap (req_done (reqs c ! req))" "buf (req_done (reqs c ! req)) \<noteq> []"
    using r by (auto simp: chan_recv_def split: list.splits)
  have logged: "req \<in> set (doneLog c)" using inv req ch(2) by (auto simp: queue_inv_def)
  have inv1: "queue_inv ?c1"
    using inv req ch(1) logged by (auto simp: queue_inv_def nth_list_update)
  have "c' = ?c1 \<or> c' = scheduleCheckLeader ?c1"
    using s DoneCase req r by (auto simp: GetTS_select_def Let_def split: option.splits)
  then show ?thesis using inv1 by (auto simp: scheduleCheckLeader_queue_inv)
qed

lemma Close_drain_run:
  assumes inv: "queue_inv c" and w: "wg c = 0"
  shows "\<exists>rs m. Close_drain arr c =
           Ok (c\<lparr>tsoRequests := (tsoRequests c)\<lparr>buf := [length (reqs c) ..< length (reqs c) + m]\<rparr>,
                 reqs := rs, doneLog := doneLog c @ buf (tsoRequests c)\<rparr>) \<and>
        length rs = length (reqs c) + m \<and>
        (\<forall>r < length (reqs c). r \<notin> set (buf (tsoRequests c)) \<longrightarrow> rs ! r = reqs c ! r) \<and>
        (\<forall>r. length (reqs c) \<le> r \<and> r < length (reqs c) + m \<longrightarrow> rs ! r = fresh_request) \<and>
        (\<forall>r \<in> set (buf (tsoRequests c)). rs ! r =
           (reqs c ! r)\<lparr>req_done := \<lparr>cap = 1, buf = [Some (Trace errClosing)]\<rparr>\<rparr>) \<and>
        m \<le> maxMergeTSORequests \<and>
        m \<le> sum arr {..length (buf (tsoRequests c))} \<and>
        ((\<exists>k < length (buf (tsoRequests c)). 0 < arr k) \<longrightarrow> 0 < m)"
proof -
  let ?q = "buf (tsoRequests c)"
  let ?n = "length ?q"
  let ?L = "length (reqs c)"
  let ?d = "\<lparr>cap = 1, buf = [Some (Trace errClosing)]\<rparr>"
  let ?k = "admitted (arr ?n) c"
  let ?c0 = "c\<lparr>reqs := reqs c @ replicate ?k fresh_request,
               tsoRequests := (tsoRequests c)\<lparr>buf := ?q @ [?L ..< ?L + ?k]\<rparr>\<rparr>"
  have i1: "cap (tsoRequests c) = maxMergeTSORequests" "?n \<le> maxMergeTSORequests"
    "distinct ?q" "\<forall>r \<in> set ?q. r < ?L \<and> r \<notin> set (doneLog c)"
    using inv by (simp_all add: queue_inv_def)
  have k: "?k \<le> arr ?n" "?n + ?k \<le> cap (tsoRequests c)"
    using i1(1) i1(2) by (simp_all add: admitted_def)
  have arrv: "arrive (arr ?n) c = ?c0" by (rule arrive_late)
  have dr: "Close_drain arr c = Close_loop arr ?n ?c0"
    using w arrv by (simp add: Close_drain_def chan_len_def Let_def)
  have "\<exists>rs m. Close_loop arr ?n ?c0 =
           Ok (?c0\<lparr>tsoRequests := (tsoRequests ?c0)\<lparr>buf := [?L ..< ?L + ?k] @
                   [length (reqs ?c0) ..< length (reqs ?c0) + m]\<rparr>,
                 reqs := rs, doneLog := doneLog ?c0 @ ?q\<rparr>) \<and>
        length rs = length (reqs ?c0) + m \<and>
        (\<forall>r < length (reqs ?c0). r \<notin> set ?q \<longrightarrow> rs ! r = reqs ?c0 ! r) \<and>
        (\<forall>r. length (reqs ?c0) \<le> r \<and> r < length (reqs ?c0) + m \<longrightarrow> rs ! r = fresh_request) \<and>
        (\<forall>i < ?n. rs ! (?q ! i) = (reqs ?c0 ! (?q ! i))\<lparr>req_done := ?d\<rparr>) \<and>
        length [?L ..< ?L + ?k] + m \<le> cap (tsoRequests ?c0) \<and>
        m \<le> sum arr {..<?n} \<and>
        ((\<exists>k < ?n. 0 < arr k) \<longrightarrow> 0 < m)"
  proof (rule Close_loop_run)
    show "buf (tsoRequests ?c0) = ?q @ [?L ..< ?L + ?k]" by simp
    show "length ?q = ?n" by simp
    show "distinct ?q" by (rule i1(3))
    show "\<forall>r \<in> set ?q. r < length (reqs ?c0) \<and> req_done (reqs ?c0 ! r) = make_chan 1"
    proof
      fix r assume r: "r \<in> set ?q"
      then have r1: "r < ?L" "r \<notin> set (doneLog c)" using i1(4) by auto
      have "req_done (reqs c ! r) = make_chan 1" using inv r1 by (rule queue_inv_fresh)
      then show "r < length (reqs ?c0) \<and> req_done (reqs ?c0 ! r) = make_chan 1"
        using r1(1) by (simp add: nth_append)
    qed
    show "length ?q + length [?L ..< ?L + ?k] \<le> cap (tsoRequests ?c0)"
      using k(2) by simp
  qed
  then obtain rs m where rs:
    "Close_loop arr ?n ?c0 =
           Ok (?c0\<lparr>tsoRequests := (tsoRequests ?c0)\<lparr>buf := [?L ..< ?L + ?k] @
                   [length (reqs ?c0) ..< length (reqs ?c0) + m]\<rparr>,
                 reqs := rs, doneLog := doneLog ?c0 @ ?q\<rparr>)"
    "length rs = length (reqs ?c0) + m"
    "\<forall>r < length (reqs ?c0). r \<notin> set ?q \<longrightarrow> rs ! r = reqs ?c0 ! r"
    "\<forall>r. length (reqs ?c0) \<le> r \<and> r < length (reqs ?c0) + m \<longrightarrow> rs ! r = fresh_request"
    "\<forall>i < ?n. rs ! (?q ! i) = (reqs ?c0 ! (?q ! i))\<lparr>req_done := ?d\<rparr>"
    "length [?L ..< ?L + ?k] + m \<le> cap (tsoRequests ?c0)"
    "m \<le> sum arr {..<?n}"
    "(\<exists>k < ?n. 0 < arr k) \<longrightarrow> 0 < m"
    by (elim exE conjE) (rule that)
  have upt: "[?L ..< ?L + ?k] @ [?L + ?k ..< ?L + ?k + m] = [?L ..< ?L + (?k + m)]"
    using upt_add_eq_append [of ?L "?L + ?k" m] by (simp add: add.assoc)
  have a: "Close_drain arr c =
           Ok (c\<lparr>tsoRequests := (tsoRequests c)\<lparr>buf := [?L ..< ?L + (?k + m)]\<rparr>,
                 reqs := rs, doneLog := doneLog c @ ?q\<rparr>)"
    unfolding dr rs(1) using upt by simp
  have b: "length rs = ?L + (?k + m)" using rs(2) by simp
  have c: "\<forall>r < ?L. r \<notin> set ?q \<longrightarrow> rs ! r = reqs c ! r"
    using rs(3) by (simp add: nth_append)
  have d: "\<forall>r. ?L \<le> r \<and> r < ?L + (?k + m) \<longrightarrow> rs ! r = fresh_request"
  proof (intro allI impI)
    fix r assume r: "?L \<le> r \<and> r < ?L + (?k + m)"
    show "rs ! r = fresh_request"
    proof (cases "r < ?L + ?k")
      case True
      have "r \<notin> set ?q" using i1(4) r by auto
      then have "rs ! r = reqs ?c0 ! r" using rs(3) True by simp
      then show ?thesis using r True by (simp add: nth_append)
    next
      case False
      then show ?thesis using rs(4) r by simp
    qed
  qed
  have e: "\<forall>r \<in> set ?q. rs ! r = (reqs c ! r)\<lparr>req_done := ?d\<rparr>"
  proof
    fix r assume r: "r \<in> set ?q"
    then obtain i where i: "i < ?n" "?q ! i = r" by (meson in_set_conv_nth)
    have "r < ?L" using i1(4) r by simp
    then show "rs ! r = (reqs c ! r)\<lparr>req_done := ?d\<rparr>"
      using rs(5) [rule_format, OF i(1)] i(2) by (simp add: nth_append)
  qed
  have f: "?k + m \<le> maxMergeTSORequests" using rs(6) i1(1) by simp
  have "sum arr {..?n} = sum arr {..<?n} + arr ?n" by (simp add: lessThan_Suc_atMost [symmetric])
  then have g: "?k + m \<le> sum arr {..?n}" using rs(7) k(1) by simp
  have h: "(\<exists>k < ?n. 0 < arr k) \<longrightarrow> 0 < ?k + m" using rs(8) by auto
  show ?thesis by (intro exI [of _ rs] exI [of _ "?k + m"] conjI) (fact a b c d e f g h)+
qed

lemma Close_drain_wg: "Close_drain arr c = Ok c' \<Longrightarrow> wg c = 0"
  by (simp add: Close_drain_def split: if_splits)

lemma Close_drain_inv:
  assumes inv: "queue_inv c" and d: "Close_drain arr c = Ok c'"
  shows "queue_inv c'"
proof -
  let ?q = "buf (tsoRequests c)"
  let ?L = "length (reqs c)"
  have i1: "cap (tsoRequests c) = maxMergeTSORequests"
    "distinct ?q" "\<forall>r \<in> set ?q. r < ?L \<and> r \<notin> set (doneLog c)"
    "distinct (doneLog c)" "\<forall>r \<in> set (doneLog c). r < ?L"
    "\<forall>r < ?L. cap (req_done (reqs c ! r)) = 1 \<and>
        (r \<notin> set (doneLog c) \<longrightarrow> buf (req_done (reqs c ! r)) = [])"
    using inv by (simp_all add: queue_inv_def)
  have w: "wg c = 0" using d by (rule Close_drain_wg)
  obtain rs m where rs:
    "Close_drain arr c =
           Ok (c\<lparr>tsoRequests := (tsoRequests c)\<lparr>buf := [?L ..< ?L + m]\<rparr>,
                 reqs := rs, doneLog := doneLog c @ ?q\<rparr>)"
    "length rs = ?L + m"
    "\<forall>r < ?L. r \<notin> set ?q \<longrightarrow> rs ! r = reqs c ! r"
    "\<forall>r. ?L \<le> r \<and> r < ?L + m \<longrightarrow> rs ! r = fresh_request"
    "\<forall>r \<in> set ?q. rs ! r =
           (reqs c ! r)\<lparr>req_done := \<lparr>cap = 1, buf = [Some (Trace errClosing)]\<rparr>\<rparr>"
    "m \<le> maxMergeTSORequests"
    using Close_drain_run [OF inv w, of arr] by (elim exE conjE) (rule that)
  have c': "c' = c\<lparr>tsoRequests := (tsoRequests c)\<lparr>buf := [?L ..< ?L + m]\<rparr>,
                 reqs := rs, doneLog := doneLog c @ ?q\<rparr>"
    using d rs(1) by simp
  have a: "length [?L ..< ?L + m] \<le> maxMergeTSORequests" using rs(6) by simp
  have b: "distinct [?L ..< ?L + m]" by simp
  have c: "\<forall>r \<in> set [?L ..< ?L + m]. r < length rs \<and> r \<notin> set (doneLog c @ ?q)"
    using rs(2) i1(3) i1(5) by fastforce
  have f: "\<forall>r < length rs. cap (req_done (rs ! r)) = 1 \<and>
        (r \<notin> set (doneLog c @ ?q) \<longrightarrow> buf (req_done (rs ! r)) = [])"
  proof (intro allI impI)
    fix r assume r: "r < length rs"
    consider (drained) "r \<in> set ?q" | (old) "r < ?L" "r \<notin> set ?q" | (new) "?L \<le> r" "r < ?L + m"
      using r rs(2) by (metis not_le_imp_less)
    then show "cap (req_done (rs ! r)) = 1 \<and>
        (r \<notin> set (doneLog c @ ?q) \<longrightarrow> buf (req_done (rs ! r)) = [])"
    proof cases
      case drained
      then have "rs ! r = (reqs c ! r)\<lparr>req_done := \<lparr>cap = 1, buf = [Some (Trace errClosing)]\<rparr>\<rparr>"
        using rs(5) by simp
      then show ?thesis using drained by simp
    next
      case old
      then have "rs ! r = reqs c ! r" using rs(3) by simp
      then show ?thesis using i1(6) old(1) by simp
    next
      case new
      then have "rs ! r = fresh_request" using rs(4) by simp
      then show ?thesis by (simp add: fresh_request_def make_chan_def)
    qed
  qed
  have d': "distinct (doneLog c @ ?q)" using i1(2) i1(3) i1(4) by auto
  have e: "\<forall>r \<in> set (doneLog c @ ?q). r < length rs" using i1(3) i1(5) rs(2) by auto
  show ?thesis unfolding c' queue_inv_def using i1(1) a b c d' e f by simp
qed

lemma same_queues_refl: "same_queues c c"
  by (simp add: same_queues_def)

lemma same_queues_inv:
  "same_queues c c' \<Longrightarrow> queue_inv c' = queue_inv c \<and> signal_inv c' = signal_inv c"
  by (simp add: same_queues_def queue_inv_def signal_inv_def)

lemma initClusterID_loop_same_queues:
  "same_queues c (snd (initClusterID_loop apis i c)) \<and>
   quit (snd (initClusterID_loop apis i c)) = quit c \<and>
   wg (snd (initClusterID_loop apis i c)) = wg c"
proof (induction apis i c rule: initClusterID_loop.induct)
  case (1 apis i c)
  show ?case
  proof (cases "i < maxInitClusterRetries")
    case False
    then show ?thesis by (subst (1 2 3) initClusterID_loop.simps) (simp add: same_queues_def)
  next
    case True
    show ?thesis
    proof (cases "initClusterID_range (apis i) 0 (urls c)")
      case (Some cid)
      then show ?thesis using True
        by (subst (1 2 3) initClusterID_loop.simps) (simp add: same_queues_def)
    next
      case None
      have "same_queues (c\<lparr>slept := slept c + 1\<rparr>)
              (snd (initClusterID_loop apis (Suc i) (c\<lparr>slept := slept c + 1\<rparr>))) \<and>
            quit (snd (initClusterID_loop apis (Suc i) (c\<lparr>slept := slept c + 1\<rparr>))) =
              quit (c\<lparr>slept := slept c + 1\<rparr>) \<and>
            wg (snd (initClusterID_loop apis (Suc i) (c\<lparr>slept := slept c + 1\<rparr>))) =
              wg (c\<lparr>slept := slept c + 1\<rparr>)"
        using True None by (rule "1.IH")
      then show ?thesis using True None
        by (subst (1 2 3) initClusterID_loop.simps) (simp add: same_queues_def)
    qed
  qed
qed

lemma updateLeader_same_queues:
  "same_queues c (snd (updateLeader api dial c)) \<and>
   quit (snd (updateLeader api dial c)) = quit c \<and> wg (snd (updateLeader api dial c)) = wg c"
proof (cases "no_leader_answer api (urls c)")
  case True
  then show ?thesis by (simp add: updateLeader_none same_queues_def)
next
  case False
  then obtain p ldr where "first_leader_answer api (urls c) p ldr"
    using answers_cases [of api "urls c"] by blast
  then show ?thesis
    by (simp add: updateLeader_first on_answer_cases same_queues_def split: option.splits sum.splits)
qed

lemma NewClient_fields:
  assumes "NewClient apis api dial pdAddrs = (Some c, e)"
  shows "tsoRequests c = make_chan maxMergeTSORequests \<and> reqs c = [] \<and> doneLog c = [] \<and>
         checkLeaderCh c = make_chan 1 \<and> wg c = 2 \<and> \<not> quit c"
proof -
  let ?c0 = "\<lparr>urls = addrsToUrls pdAddrs, clusterID = 0,
              tsoRequests = make_chan maxMergeTSORequests,
              clients = Map.empty, leader = [], checkLeaderCh = make_chan 1,
              wg = 0, quit = False, reqs = [], tsoLog = [], doneLog = [], slept = 0\<rparr>"
  let ?c1 = "snd (initClusterID apis ?c0)"
  let ?c2 = "snd (updateLeader api dial ?c1)"
  have c: "c = ?c2\<lparr>wg := 2\<rparr>"
    using assms by (auto simp: NewClient_def split: prod.splits option.splits)
  have 1: "same_queues ?c0 ?c1 \<and> quit ?c1 = quit ?c0"
    using initClusterID_loop_same_queues [of ?c0 apis 0] by (simp add: initClusterID_def)
  have 2: "same_queues ?c1 ?c2 \<and> quit ?c2 = quit ?c1"
    using updateLeader_same_queues [of ?c1 api dial] by simp
  show ?thesis unfolding c using 1 2 by (simp add: same_queues_def)
qed

lemma NewClient_inv:
  assumes "NewClient apis api dial pdAddrs = (Some c, e)"
  shows "queue_inv c \<and> signal_inv c"
  using NewClient_fields [OF assms]
  by (simp add: queue_inv_def signal_inv_def make_chan_def)

lemma scheduleCheckLeader_signal_inv: "signal_inv c \<Longrightarrow> signal_inv (scheduleCheckLeader c)"
  by (auto simp: scheduleCheckLeader_def signal_inv_def chan_send_def split: option.splits if_splits)

lemma GetTS_enqueue_signal:
  "GetTS_enqueue c = Ok (req, c') \<Longrightarrow> checkLeaderCh c' = checkLeaderCh c"
  by (auto simp: GetTS_enqueue_def Let_def split: option.splits)

lemma GetTS_select_signal:
  assumes "signal_inv c" and "GetTS_select pick ctx_err req c = Ok (res, c')"
  shows "signal_inv c'"
proof -
  have "\<exists>c1. checkLeaderCh c1 = checkLeaderCh c \<and> (c' = c1 \<or> c' = scheduleCheckLeader c1)"
  proof (cases pick)
    case CtxDoneCase
    then have "c' = c" using assms(2) by (auto simp: GetTS_select_def split: if_splits option.splits)
    then show ?thesis by blast
  next
    case DoneCase
    have req: "req < length (reqs c)" using assms(2) by (auto simp: GetTS_select_def split: if_splits)
    obtain err ch where r: "chan_recv (req_done (reqs c ! req)) = Some (err, ch)"
      using assms(2) DoneCase req by (auto simp: GetTS_select_def split: option.splits)
    let ?c1 = "c\<lparr>reqs := (reqs c)[req := (reqs c ! req)\<lparr>req_done := ch\<rparr>]\<rparr>"
    have "c' = ?c1 \<or> c' = scheduleCheckLeader ?c1"
      using assms(2) DoneCase req r by (auto simp: GetTS_select_def Let_def split: option.splits)
    moreover have "checkLeaderCh ?c1 = checkLeaderCh c" by simp
    ultimately show ?thesis by blast
  qed
  then obtain c1 where c1: "checkLeaderCh c1 = checkLeaderCh c"
    "c' = c1 \<or> c' = scheduleCheckLeader c1" by blast
  have "signal_inv c1" using assms(1) c1(1) by (simp add: signal_inv_def)
  then show ?thesis using c1(2) scheduleCheckLeader_signal_inv by auto
qed

lemma tsLoop_iter_inv:
  assumes inv: "queue_inv c \<and> signal_inv c"
    and it: "tsLoop_iter tpick env c = Ok (Continue c') \<or> tsLoop_iter tpick env c = Ok (Return c')"
  shows "queue_inv c' \<and> signal_inv c'"
proof (cases tpick)
  case TsQuitCase
  then have "c' = c\<lparr>wg := wg c - 1\<rparr>"
    using it by (auto simp: tsLoop_iter_def split: if_splits)
  then show ?thesis using inv by (simp add: queue_inv_def signal_inv_def)
next
  case TsoRequestCase
  obtain first pending where q: "buf (tsoRequests c) = first # pending"
    using it TsoRequestCase
    by (cases "buf (tsoRequests c)") (auto simp: tsLoop_iter_def chan_recv_def)
  let ?c0 = "c\<lparr>tsoRequests := (tsoRequests c)\<lparr>buf := pending\<rparr>\<rparr>"
  have run: "processTSORequests env first ?c0 = Ok c'"
    using it TsoRequestCase tsLoop_iter_request [OF q, of env]
    by (auto split: result.splits)
  obtain pc where lc: "leaderClient ?c0 = Some pc"
    using run by (cases "leaderClient ?c0") (auto simp: processTSORequests_def Let_def)
  have i0: "queue_inv ?c0" "in_flight first ?c0"
    using inv q by (simp_all add: dequeue_inv)
  have "queue_inv c'" using i0 lc run by (rule processTSORequests_inv)
  moreover have "checkLeaderCh c' = checkLeaderCh ?c0"
    using processTSORequests_frame [OF i0 lc run] by simp
  ultimately show ?thesis using inv by (simp add: signal_inv_def)
qed

lemma leaderLoop_iter_inv:
  assumes inv: "queue_inv c \<and> signal_inv c"
    and it: "leaderLoop_iter lpick api dial c = Ok (Continue c') \<or>
             leaderLoop_iter lpick api dial c = Ok (Return c')"
  shows "queue_inv c' \<and> signal_inv c'"
proof (cases lpick)
  case LeaderQuitCase
  then have "c' = c\<lparr>wg := wg c - 1\<rparr>"
    using it by (auto simp: leaderLoop_iter_def split: if_splits)
  then show ?thesis using inv by (simp add: queue_inv_def signal_inv_def)
next
  case TimeAfterCase
  then have "c' = snd (updateLeader api dial c)"
    using it by (auto simp: leaderLoop_iter_def)
  then show ?thesis using inv updateLeader_same_queues [of c api dial] same_queues_inv by blast
next
  case CheckLeaderCase
  obtain u ch where r: "chan_recv (checkLeaderCh c) = Some (u, ch)"
    using it CheckLeaderCase
    by (cases "chan_recv (checkLeaderCh c)") (auto simp: leaderLoop_iter_def)
  let ?c1 = "c\<lparr>checkLeaderCh := ch\<rparr>"
  have c': "c' = snd (updateLeader api dial ?c1)"
    using it CheckLeaderCase r by (auto simp: leaderLoop_iter_def)
  have "cap ch = cap (checkLeaderCh c) \<and> length (buf ch) \<le> length (buf (checkLeaderCh c))"
    using r by (auto simp: chan_recv_def split: list.splits)
  then have "queue_inv ?c1 \<and> signal_inv ?c1"
    using inv by (simp add: queue_inv_def signal_inv_def)
  then show ?thesis
    unfolding c' using updateLeader_same_queues [of ?c1 api dial] same_queues_inv by blast
qed

lemma GetStore_inv:
  assumes inv: "queue_inv c \<and> signal_inv c" and g: "GetStore rpc storeID c = Ok (sres, c')"
  shows "queue_inv c' \<and> signal_inv c'"
proof -
  have "c' = c \<or> c' = scheduleCheckLeader c"
    using g by (auto simp: GetStore_def split: option.splits sum.splits if_splits)
  then show ?thesis
    using inv scheduleCheckLeader_signal_inv scheduleCheckLeader_queue_inv by auto
qed

lemma Close_drain_signal:
  assumes inv: "queue_inv c" and d: "Close_drain arr c = Ok c'"
  shows "checkLeaderCh c' = checkLeaderCh c"
proof -
  have w: "wg c = 0" using d by (rule Close_drain_wg)
  obtain rs m where
    "Close_drain arr c =
           Ok (c\<lparr>tsoRequests := (tsoRequests c)\<lparr>buf := [length (reqs c) ..< length (reqs c) + m]\<rparr>,
                 reqs := rs, doneLog := doneLog c @ buf (tsoRequests c)\<rparr>)"
    using Close_drain_run [OF inv w, of arr] by (elim exE conjE) (rule that)
  then show ?thesis using d by auto
qed

lemma reachable_inv: "reachable c \<Longrightarrow> queue_inv c \<and> signal_inv c"
proof (induction rule: reachable.induct)
  case (init apis api dial pdAddrs c e)
  then show ?case by (rule NewClient_inv)
next
  case (enqueue c req c')
  then show ?case
    using GetTS_enqueue_inv [of c req c'] GetTS_enqueue_signal [of c req c']
    by (simp add: signal_inv_def)
next
  case (select c pick ctx_err req res c')
  then show ?case using GetTS_select_inv GetTS_select_signal by blast
next
  case (ts_continue c tpick env c')
  then show ?case using tsLoop_iter_inv by blast
next
  case (ts_return c tpick env c')
  then show ?case using tsLoop_iter_inv by blast
next
  case (leader_continue c lpick api dial c')
  then show ?case using leaderLoop_iter_inv by blast
next
  case (leader_return c lpick api dial c')
  then show ?case using leaderLoop_iter_inv by blast
next
  case (schedule c)
  then show ?case by (simp add: scheduleCheckLeader_signal_inv scheduleCheckLeader_queue_inv)
next
  case (get_store c rpc storeID sres c')
  then show ?case using GetStore_inv by blast
next
  case (close_quit c c')
  then have "c' = c\<lparr>quit := True\<rparr>" by (auto simp: Close_quit_def split: if_splits)
  then show ?case using close_quit by (simp add: queue_inv_def signal_inv_def)
next
  case (close_drain c arr c')
  then show ?case
    using Close_drain_inv [of c arr c'] Close_drain_signal [of c arr c'] by (simp add: signal_inv_def)
qed

subsection \<open>The connection of the leader\<close>

lemma leader_inv_cong:
  "clients c' = clients c \<Longrightarrow> leader c' = leader c \<Longrightarrow> leader_inv c' = leader_inv c"
  by (simp add: leader_inv_def)

lemma updateLeader_leader_inv: "leader_inv c \<Longrightarrow> leader_inv (snd (updateLeader api dial c))"
proof (cases "no_leader_answer api (urls c)")
  case True
  then show "leader_inv c \<Longrightarrow> ?thesis" by (simp add: updateLeader_none)
next
  case False
  then obtain p ldr where "first_leader_answer api (urls c) p ldr"
    using answers_cases [of api "urls c"] by blast
  then show "leader_inv c \<Longrightarrow> ?thesis"
    by (auto simp: updateLeader_first on_answer_cases leader_inv_def split: option.splits sum.splits)
qed

lemma initClusterID_loop_leader:
  "clients (snd (initClusterID_loop apis i c)) = clients c \<and>
   leader (snd (initClusterID_loop apis i c)) = leader c"
proof (induction apis i c rule: initClusterID_loop.induct)
  case (1 apis i c)
  show ?case
  proof (cases "i < maxInitClusterRetries")
    case False
    then show ?thesis by (subst (1 2) initClusterID_loop.simps) simp
  next
    case True
    show ?thesis
    proof (cases "initClusterID_range (apis i) 0 (urls c)")
      case (Some cid)
      then show ?thesis using True by (subst (1 2) initClusterID_loop.simps) simp
    next
      case None
      have "clients (snd (initClusterID_loop apis (Suc i) (c\<lparr>slept := slept c + 1\<rparr>))) =
              clients (c\<lparr>slept := slept c + 1\<rparr>) \<and>
            leader (snd (initClusterID_loop apis (Suc i) (c\<lparr>slept := slept c + 1\<rparr>))) =
              leader (c\<lparr>slept := slept c + 1\<rparr>)"
        using True None by (rule "1.IH")
      then show ?thesis using True None by (subst (1 2) initClusterID_loop.simps) simp
    qed
  qed
qed

lemma NewClient_leader_inv:
  assumes "NewClient apis api dial pdAddrs = (Some c, e)"
  shows "leader_inv c"
proof -
  let ?c0 = "\<lparr>urls = addrsToUrls pdAddrs, clusterID = 0,
              tsoRequests = make_chan maxMergeTSORequests,
              clients = Map.empty, leader = [], checkLeaderCh = make_chan 1,
              wg = 0, quit = False, reqs = [], tsoLog = [], doneLog = [], slept = 0\<rparr>"
  let ?c1 = "snd (initClusterID apis ?c0)"
  let ?c2 = "snd (updateLeader api dial ?c1)"
  have c: "c = ?c2\<lparr>wg := 2\<rparr>"
    using assms by (auto simp: NewClient_def split: prod.splits option.splits)
  have "leader_inv ?c1"
    using initClusterID_loop_leader [of apis 0 ?c0] by (simp add: initClusterID_def leader_inv_def)
  then have "leader_inv ?c2" by (rule updateLeader_leader_inv)
  then show ?thesis unfolding c by (simp add: leader_inv_def)
qed

lemma scheduleCheckLeader_leader:
  "clients (scheduleCheckLeader c) = clients c \<and> leader (scheduleCheckLeader c) = leader c"
  by (simp add: scheduleCheckLeader_def split: option.splits)

lemma GetTS_select_leader:
  assumes "GetTS_select pick ctx_err req c = Ok (res, c')"
  shows "clients c' = clients c \<and> leader c' = leader c"
proof (cases pick)
  case CtxDoneCase
  then have "c' = c" using assms by (auto simp: GetTS_select_def split: if_splits option.splits)
  then show ?thesis by simp
next
  case DoneCase
  have req: "req < length (reqs c)" using assms by (auto simp: GetTS_select_def split: if_splits)
  obtain err ch where r: "chan_recv (req_done (reqs c ! req)) = Some (err, ch)"
    using assms DoneCase req by (auto simp: GetTS_select_def split: option.splits)
  let ?c1 = "c\<lparr>reqs := (reqs c)[req := (reqs c ! req)\<lparr>req_done := ch\<rparr>]\<rparr>"
  have "c' = ?c1 \<or> c' = scheduleCheckLeader ?c1"
    using assms DoneCase req r by (auto simp: GetTS_select_def Let_def split: option.splits)
  then show ?thesis using scheduleCheckLeader_leader [of ?c1] by auto
qed

lemma tsLoop_iter_leader:
  assumes inv: "queue_inv c"
    and it: "tsLoop_iter tpick env c = Ok (Continue c') \<or> tsLoop_iter tpick env c = Ok (Return c')"
  shows "clients c' = clients c \<and> leader c' = leader c"
proof (cases tpick)
  case TsQuitCase
  then have "c' = c\<lparr>wg := wg c - 1\<rparr>"
    using it by (auto simp: tsLoop_iter_def split: if_splits)
  then show ?thesis by simp
next
  case TsoRequestCase
  obtain first pending where q: "buf (tsoRequests c) = first # pending"
    using it TsoRequestCase
    by (cases "buf (tsoRequests c)") (auto simp: tsLoop_iter_def chan_recv_def)
  let ?c0 = "c\<lparr>tsoRequests := (tsoRequests c)\<lparr>buf := pending\<rparr>\<rparr>"
  have run: "processTSORequests env first ?c0 = Ok c'"
    using it TsoRequestCase tsLoop_iter_request [OF q, of env]
    by (auto split: result.splits)
  obtain pc where lc: "leaderClient ?c0 = Some pc"
    using run by (cases "leaderClient ?c0") (auto simp: processTSORequests_def Let_def)
  have i0: "queue_inv ?c0" "in_flight first ?c0"
    using inv q by (simp_all add: dequeue_inv)
  show ?thesis using processTSORequests_frame [OF i0 lc run] by simp
qed

lemma Close_drain_leader:
  assumes inv: "queue_inv c" and d: "Close_drain arr c = Ok c'"
  shows "clients c' = clients c \<and> leader c' = leader c"
proof -
  have w: "wg c = 0" using d by (rule Close_drain_wg)
  obtain rs m where
    "Close_drain arr c =
           Ok (c\<lparr>tsoRequests := (tsoRequests c)\<lparr>buf := [length (reqs c) ..< length (reqs c) + m]\<rparr>,
                 reqs := rs, doneLog := doneLog c @ buf (tsoRequests c)\<rparr>)"
    using Close_drain_run [OF inv w, of arr] by (elim exE conjE) (rule that)
  then show ?thesis using d by auto
qed

lemma reachable_leader_inv: "reachable c \<Longrightarrow> leader_inv c"
proof (induction rule: reachable.induct)
  case (init apis api dial pdAddrs c e)
  then show ?case by (rule NewClient_leader_inv)
next
  case (enqueue c req c')
  have "clients c' = clients c \<and> leader c' = leader c"
    using enqueue(2) by (auto simp: GetTS_enqueue_def Let_def split: option.splits)
  then show ?case using enqueue(3) by (simp add: leader_inv_def)
next
  case (select c pick ctx_err req res c')
  then show ?case using GetTS_select_leader [of pick ctx_err req c res c'] by (simp add: leader_inv_def)
next
  case (ts_continue c tpick env c')
  then show ?case
    using tsLoop_iter_leader [of c tpick env c'] reachable_inv [of c] by (simp add: leader_inv_def)
next
  case (ts_return c tpick env c')
  then show ?case
    using tsLoop_iter_leader [of c tpick env c'] reachable_inv [of c] by (simp add: leader_inv_def)
next
  case (leader_continue c lpick api dial c')
  have "\<exists>c1. leader_inv c1 \<and> c' = snd (updateLeader api dial c1)"
  proof (cases lpick)
    case CheckLeaderCase
    obtain u ch where r: "chan_recv (checkLeaderCh c) = Some (u, ch)"
      using leader_continue(2) CheckLeaderCase
      by (cases "chan_recv (checkLeaderCh c)") (auto simp: leaderLoop_iter_def)
    have "c' = snd (updateLeader api dial (c\<lparr>checkLeaderCh := ch\<rparr>))"
      using leader_continue(2) CheckLeaderCase r by (auto simp: leaderLoop_iter_def)
    moreover have "leader_inv (c\<lparr>checkLeaderCh := ch\<rparr>)"
      using leader_continue(3) by (simp add: leader_inv_def)
    ultimately show ?thesis by blast
  next
    case TimeAfterCase
    then have "c' = snd (updateLeader api dial c)"
      using leader_continue(2) by (auto simp: leaderLoop_iter_def)
    then show ?thesis using leader_continue(3) by blast
  next
    case LeaderQuitCase
    then show ?thesis using leader_continue(2) by (auto simp: leaderLoop_iter_def split: if_splits)
  qed
  then show ?case using updateLeader_leader_inv by blast
next
  case (leader_return c lpick api dial c')
  have "c' = c\<lparr>wg := wg c - 1\<rparr>"
    using leader_return(2)
    by (cases lpick) (auto simp: leaderLoop_iter_def split: if_splits option.splits)
  then show ?case using leader_return(3) by (simp add: leader_inv_def)
next
  case (schedule c)
  then show ?case using scheduleCheckLeader_leader [of c] by (simp add: leader_inv_def)
next
  case (get_store c rpc storeID sres c')
  have "c' = c \<or> c' = scheduleCheckLeader c"
    using get_store(2) by (auto simp: GetStore_def split: option.splits sum.splits if_splits)
  then show ?case using get_store(3) scheduleCheckLeader_leader [of c] by (auto simp: leader_inv_def)
next
  case (close_quit c c')
  then have "c' = c\<lparr>quit := True\<rparr>" by (auto simp: Close_quit_def split: if_splits)
  then show ?case using close_quit by (simp add: leader_inv_def)
next
  case (close_drain c arr c')
  then show ?case
    using Close_drain_leader [of c arr c'] reachable_inv [of c] by (simp add: leader_inv_def)
qed

lemma reachable_leaderClient:
  "reachable c \<Longrightarrow> leader c \<noteq> [] \<Longrightarrow> \<exists>pc. leaderClient c = Some pc"
  using reachable_leader_inv [of c] by (auto simp: leader_inv_def leaderClient_def)

subsection \<open>One iteration of the timestamp loop\<close>

lemma tsLoop_iter_run:
  assumes inv: "queue_inv c" and q: "buf (tsoRequests c) = first # pending"
    and lc: "leaderClient c = Some pc"
  shows "\<exists>rs. tsLoop_iter TsoRequestCase env c =
           Ok (Continue (c\<lparr>tsoRequests := (tsoRequests c)\<lparr>buf := late_requests (arrivals env) (dequeued c)\<rparr>,
                 reqs := rs,
                 tsoLog := tsoLog c @ [(pc, tso_request (dequeued c))],
                 doneLog := doneLog c @ first # pending\<rparr>)) \<and>
        length rs = length (reqs c) + admitted (arrivals env) (dequeued c) \<and>
        (\<forall>r < length (reqs c). r \<notin> set (first # pending) \<longrightarrow> rs ! r = reqs c ! r) \<and>
        (\<forall>r \<in> set (late_requests (arrivals env) (dequeued c)). rs ! r = fresh_request) \<and>
        (\<forall>i < Suc (length pending).
           rs ! ((first # pending) ! i) =
             expected (tso_verdict (Tso env pc (tso_request (dequeued c))) (Suc (length pending))) i)"
proof -
  let ?c0 = "c\<lparr>tsoRequests := (tsoRequests c)\<lparr>buf := pending\<rparr>\<rparr>"
  have d: "dequeued c = ?c0" using q by (simp add: dequeued_def)
  have i0: "queue_inv ?c0" "in_flight first ?c0" using inv q by (simp_all add: dequeue_inv)
  have lc0: "leaderClient ?c0 = Some pc" using lc by (simp add: leaderClient_def)
  show ?thesis
    using processTSORequests_run [OF i0 lc0, of env]
    unfolding tsLoop_iter_request [OF q] d
    by (auto simp: late_requests_def admitted_def)
qed

lemma tsLoop_iter_ok:
  assumes "queue_inv c" and "leaderClient c = Some pc"
  shows "\<exists>s. tsLoop_iter TsoRequestCase env c = Ok s"
proof (cases "buf (tsoRequests c)")
  case Nil
  then show ?thesis by (simp add: tsLoop_iter_def chan_recv_def)
next
  case (Cons first pending)
  show ?thesis using tsLoop_iter_run [OF assms(1) Cons assms(2), of env] by blast
qed

lemma tsLoop_iter_not_blocked:
  assumes "queue_inv c"
  shows "tsLoop_iter pick env c \<noteq> Blocked"
proof (cases pick)
  case TsQuitCase
  then show ?thesis by (simp add: tsLoop_iter_def)
next
  case TsoRequestCase
  show ?thesis
  proof (cases "buf (tsoRequests c)")
    case Nil
    then show ?thesis using TsoRequestCase by (simp add: tsLoop_iter_def chan_recv_def)
  next
    case (Cons first pending)
    show ?thesis
    proof (cases "leaderClient c")
      case None
      then have "leaderClient (c\<lparr>tsoRequests := (tsoRequests c)\<lparr>buf := pending\<rparr>\<rparr>) = None"
        by (simp add: leaderClient_def)
      then have "processTSORequests env first (c\<lparr>tsoRequests := (tsoRequests c)\<lparr>buf := pending\<rparr>\<rparr>) = Panic"
        by (simp add: processTSORequests_def Let_def)
      then show ?thesis using TsoRequestCase by (simp add: tsLoop_iter_request [OF Cons])
    next
      case (Some pc)
      obtain s where "tsLoop_iter TsoRequestCase env c = Ok s"
        using tsLoop_iter_ok [OF assms Some, of env] by blast
      then show ?thesis using TsoRequestCase by simp
    qed
  qed
qed

lemma Close_drain_not_blocked:
  assumes "queue_inv c" and "wg c = 0"
  shows "Close_drain arr c \<noteq> Blocked"
proof -
  obtain rs m where
    "Close_drain arr c =
           Ok (c\<lparr>tsoRequests := (tsoRequests c)\<lparr>buf := [length (reqs c) ..< length (reqs c) + m]\<rparr>,
                 reqs := rs, doneLog := doneLog c @ buf (tsoRequests c)\<rparr>)"
    using Close_drain_run [OF assms, of arr] by (elim exE conjE) (rule that)
  then show ?thesis by simp
qed






lemma GetTS_select_done_error:
  "req < length (reqs c) \<Longrightarrow> req_done (reqs c ! req) = \<lparr>cap = 1, buf = [Some e]\<rparr> \<Longrightarrow>
   \<exists>c'. GetTS_select DoneCase ctx_err req c = Ok ((0, 0, Some (Trace e)), c')"
  by (simp add: GetTS_select_def chan_recv_def Let_def)

subsection \<open>The example states\<close>

lemma ex_client_queued_0: "ex_client_queued 0 = ex_client"
  by (simp add: ex_client_queued_def ex_client_def make_chan_def)

lemma ex_client_queued_enqueue:
  "n < 10000 \<Longrightarrow> GetTS_enqueue (ex_client_queued n) = Ok (n, ex_client_queued (Suc n))"
  by (simp add: GetTS_enqueue_def Let_def chan_send_def ex_client_queued_def fresh_request_def
      replicate_append_same)

lemma ex_client_queued_reachable: "n \<le> 10000 \<Longrightarrow> reachable (ex_client_queued n)"
proof (induction n)
  case 0
  show ?case unfolding ex_client_queued_0 using ex_NewClient by (rule reachable.init)
next
  case (Suc n)
  then have "reachable (ex_client_queued n)" "GetTS_enqueue (ex_client_queued n) = Ok (n, ex_client_queued (Suc n))"
    by (simp_all add: ex_client_queued_enqueue)
  then show ?case by (rule reachable.enqueue)
qed

lemma ex_client_queued_fields:
  "buf (tsoRequests (ex_client_queued (Suc n))) = 0 # [1..<Suc n]"
  "leaderClient (ex_client_queued n) = Some (NewPDClient (ClientConn ''http://pd3:2379''))"
  "clusterID (ex_client_queued n) = 42"
  "tsoLog (ex_client_queued n) = []"
  "doneLog (ex_client_queued n) = []"
  "length (reqs (ex_client_queued n)) = n"
  by (simp_all add: ex_client_queued_def ex_client_def leaderClient_def upt_conv_Cons)

lemma ex_client_closing_reachable: "n \<le> 10000 \<Longrightarrow> reachable (ex_client_closing n)"
proof -
  assume "n \<le> 10000"
  then have r0: "reachable (ex_client_queued n)" by (rule ex_client_queued_reachable)
  have w: "wg (ex_client_queued n) = 2" "\<not> quit (ex_client_queued n)"
    by (simp_all add: ex_client_queued_def ex_client_def)
  have "Close_quit (ex_client_queued n) = Ok ((ex_client_queued n)\<lparr>quit := True\<rparr>)"
    using w by (simp add: Close_quit_def)
  then have r1: "reachable ((ex_client_queued n)\<lparr>quit := True\<rparr>)"
    using r0 reachable.close_quit by blast
  have "tsLoop_iter TsQuitCase env ((ex_client_queued n)\<lparr>quit := True\<rparr>) =
          Ok (Return ((ex_client_queued n)\<lparr>quit := True, wg := 1\<rparr>))" for env
    using w by (simp add: tsLoop_iter_def)
  then have r2: "reachable ((ex_client_queued n)\<lparr>quit := True, wg := 1\<rparr>)"
    using r1 reachable.ts_return by blast
  have "leaderLoop_iter LeaderQuitCase api dial ((ex_client_queued n)\<lparr>quit := True, wg := 1\<rparr>) =
          Ok (Return (ex_client_closing n))" for api dial
    by (simp add: leaderLoop_iter_def ex_client_closing_def)
  then show ?thesis using r2 reachable.leader_return by blast
qed

subsection \<open>Batches of timestamp requests\<close>








subsection \<open>Shutdown\<close>

lemma GetTS_select_fresh:
  "req < length (reqs c) \<Longrightarrow> reqs c ! req = fresh_request \<Longrightarrow>
   GetTS_select DoneCase ctx_err req c = Blocked \<and> GetTS_select CtxDoneCase None req c = Blocked"
  by (simp add: GetTS_select_def fresh_request_def make_chan_def chan_recv_def)

text \<open>
  C4: once both loops have returned (the counter of the wait group is zero), the rest of
  \<^verbatim>\<open>Close\<close> returns, whatever callers of \<^verbatim>\<open>GetTS\<close> come to the queue meanwhile, and
  every request that was in the queue when its length was read holds the error
  \<open>errClosing\<close>, traced, in its done channel, so that its caller's \<^verbatim>\<open>GetTS\<close> returns
  that error. The queue holds afterwards the requests that entered it after the length
  was read, and only them: none of them has been completed, and the select of its
  caller finds the done channel empty, so that the caller waits as long as its context
  is not done. There are no more of them than callers that came. So the queue is empty
  afterwards when no caller came; it is not when a caller came after one of the
  receives, since the queue has room then.
\<close>

theorem Close_drain_fails_queued:
  assumes "reachable c" and "wg c = 0"
  shows "\<exists>c'. Close_drain arr c = Ok c' \<and>
           (\<forall>req \<in> set (buf (tsoRequests c)).
              req_done (reqs c' ! req) = \<lparr>cap = 1, buf = [Some (Trace errClosing)]\<rparr> \<and>
              (\<forall>ctx_err. \<exists>c''. GetTS_select DoneCase ctx_err req c' =
                 Ok ((0, 0, Some (Trace (Trace errClosing))), c''))) \<and>
           buf (tsoRequests c') = [length (reqs c) ..< length (reqs c')] \<and>
           (\<forall>req \<in> set (buf (tsoRequests c')).
              reqs c' ! req = fresh_request \<and>
              (\<forall>ctx_err. GetTS_select DoneCase ctx_err req c' = Blocked) \<and>
              GetTS_select CtxDoneCase None req c' = Blocked) \<and>
           length (buf (tsoRequests c')) \<le> sum arr {..length (buf (tsoRequests c))} \<and>
           ((\<forall>k \<le> length (buf (tsoRequests c)). arr k = 0) \<longrightarrow> buf (tsoRequests c') = []) \<and>
           ((\<exists>k < length (buf (tsoRequests c)). 0 < arr k) \<longrightarrow> buf (tsoRequests c') \<noteq> [])"
proof -
  let ?q = "buf (tsoRequests c)"
  let ?L = "length (reqs c)"
  let ?d = "\<lparr>cap = 1, buf = [Some (Trace errClosing)]\<rparr> :: error option chan"
  have inv: "queue_inv c" using assms(1) by (simp add: reachable_inv)
  have old: "\<forall>r \<in> set ?q. r < ?L" using inv by (simp add: queue_inv_def)
  obtain rs m where rs:
    "Close_drain arr c =
           Ok (c\<lparr>tsoRequests := (tsoRequests c)\<lparr>buf := [?L ..< ?L + m]\<rparr>,
                 reqs := rs, doneLog := doneLog c @ ?q\<rparr>)"
    "length rs = ?L + m"
    "\<forall>r. ?L \<le> r \<and> r < ?L + m \<longrightarrow> rs ! r = fresh_request"
    "\<forall>r \<in> set ?q. rs ! r = (reqs c ! r)\<lparr>req_done := ?d\<rparr>"
    "m \<le> sum arr {..length ?q}"
    "(\<exists>k < length ?q. 0 < arr k) \<longrightarrow> 0 < m"
    using Close_drain_run [OF inv assms(2), of arr] by (elim exE conjE) (rule that)
  let ?c' = "c\<lparr>tsoRequests := (tsoRequests c)\<lparr>buf := [?L ..< ?L + m]\<rparr>,
                 reqs := rs, doneLog := doneLog c @ ?q\<rparr>"
  have a: "Close_drain arr c = Ok ?c'" by (rule rs(1))
  have b: "\<forall>req \<in> set ?q.
              req_done (reqs ?c' ! req) = ?d \<and>
              (\<forall>ctx_err. \<exists>c''. GetTS_select DoneCase ctx_err req ?c' =
                 Ok ((0, 0, Some (Trace (Trace errClosing))), c''))"
  proof
    fix req assume r: "req \<in> set ?q"
    have v: "req_done (reqs ?c' ! req) = ?d" using rs(4) r by simp
    have len: "req < length (reqs ?c')" using old r rs(2) by auto
    show "req_done (reqs ?c' ! req) = ?d \<and>
              (\<forall>ctx_err. \<exists>c''. GetTS_select DoneCase ctx_err req ?c' =
                 Ok ((0, 0, Some (Trace (Trace errClosing))), c''))"
      using v GetTS_select_done_error [OF len v] by blast
  qed
  have c: "buf (tsoRequests ?c') = [?L ..< length (reqs ?c')]" using rs(2) by simp
  have d: "\<forall>req \<in> set (buf (tsoRequests ?c')).
              reqs ?c' ! req = fresh_request \<and>
              (\<forall>ctx_err. GetTS_select DoneCase ctx_err req ?c' = Blocked) \<and>
              GetTS_select CtxDoneCase None req ?c' = Blocked"
  proof
    fix req assume "req \<in> set (buf (tsoRequests ?c'))"
    then have r: "?L \<le> req \<and> req < ?L + m" by simp
    then have f: "reqs ?c' ! req = fresh_request" using rs(3) by simp
    have len: "req < length (reqs ?c')" using r rs(2) by simp
    show "reqs ?c' ! req = fresh_request \<and>
              (\<forall>ctx_err. GetTS_select DoneCase ctx_err req ?c' = Blocked) \<and>
              GetTS_select CtxDoneCase None req ?c' = Blocked"
      using f GetTS_select_fresh [OF len f] by blast
  qed
  have e: "length (buf (tsoRequests ?c')) \<le> sum arr {..length ?q}" using rs(5) by simp
  have f: "(\<forall>k \<le> length ?q. arr k = 0) \<longrightarrow> buf (tsoRequests ?c') = []"
  proof
    assume "\<forall>k \<le> length ?q. arr k = 0"
    then have "sum arr {..length ?q} = 0" by simp
    then have "m = 0" using rs(5) by simp
    then show "buf (tsoRequests ?c') = []" by simp
  qed
  have g: "(\<exists>k < length ?q. 0 < arr k) \<longrightarrow> buf (tsoRequests ?c') \<noteq> []"
    using rs(6) by simp
  show ?thesis by (intro exI [of _ ?c'] conjI) (fact a b c d e f g)+
qed

theorem Close_drain_fails_queued_witness:
  "(\<exists>c'. Close_drain (\<lambda>k. 0) (ex_client_closing 5) = Ok c' \<and> buf (tsoRequests c') = [] \<and>
      map (\<lambda>req. buf (req_done (reqs c' ! req))) [0, 1, 2, 3, 4] =
        replicate 5 [Some (Trace errClosing)]) \<and>
   (\<exists>c'. Close_drain (\<lambda>k. if k = 2 then 1 else 0) (ex_client_closing 5) = Ok c' \<and>
      buf (tsoRequests c') \<noteq> [] \<and> length (buf (tsoRequests c')) \<le> 1 \<and>
      map (\<lambda>req. buf (req_done (reqs c' ! req))) [0, 1, 2, 3, 4] =
        replicate 5 [Some (Trace errClosing)])"
proof -
  have r: "reachable (ex_client_closing 5)" by (rule ex_client_closing_reachable) simp
  have w: "wg (ex_client_closing 5) = 0" by (simp add: ex_client_closing_def)
  have q: "buf (tsoRequests (ex_client_closing 5)) = [0, 1, 2, 3, 4]"
    by (simp add: ex_client_closing_def ex_client_queued_def upt_rec)
  have all: "map (\<lambda>req. buf (req_done (reqs c' ! req))) [0, 1, 2, 3, 4] =
        replicate 5 [Some (Trace errClosing)]"
    if "\<forall>req \<in> set [0, 1, 2, 3, 4 :: nat].
              req_done (reqs c' ! req) = \<lparr>cap = 1, buf = [Some (Trace errClosing)]\<rparr> \<and>
              (\<forall>ctx_err. \<exists>c''. GetTS_select DoneCase ctx_err req c' =
                 Ok ((0, 0, Some (Trace (Trace errClosing))), c''))" for c'
  proof -
    note e = that [THEN bspec, THEN conjunct1]
    have 0: "buf (req_done (reqs c' ! 0)) = [Some (Trace errClosing)]" using e [of 0] by simp
    have 1: "buf (req_done (reqs c' ! 1)) = [Some (Trace errClosing)]" using e [of 1] by simp
    have 2: "buf (req_done (reqs c' ! 2)) = [Some (Trace errClosing)]" using e [of 2] by simp
    have 3: "buf (req_done (reqs c' ! 3)) = [Some (Trace errClosing)]" using e [of 3] by simp
    have 4: "buf (req_done (reqs c' ! 4)) = [Some (Trace errClosing)]" using e [of 4] by simp
    show ?thesis using 0 1 2 3 4 by (simp add: numeral_eq_Suc)
  qed
  obtain c1 where c1:
    "Close_drain (\<lambda>k. 0) (ex_client_closing 5) = Ok c1"
    "\<forall>req \<in> set (buf (tsoRequests (ex_client_closing 5))).
              req_done (reqs c1 ! req) = \<lparr>cap = 1, buf = [Some (Trace errClosing)]\<rparr> \<and>
              (\<forall>ctx_err. \<exists>c''. GetTS_select DoneCase ctx_err req c1 =
                 Ok ((0, 0, Some (Trace (Trace errClosing))), c''))"
    "(\<forall>k \<le> length (buf (tsoRequests (ex_client_closing 5))). (\<lambda>k. 0 :: nat) k = 0) \<longrightarrow>
       buf (tsoRequests c1) = []"
    using Close_drain_fails_queued [OF r w, where arr = "\<lambda>k. 0"]
    by (elim exE conjE) (rule that)
  have e1: "buf (tsoRequests c1) = []" using c1(3) by simp
  have m1: "map (\<lambda>req. buf (req_done (reqs c1 ! req))) [0, 1, 2, 3, 4] =
        replicate 5 [Some (Trace errClosing)]"
    using c1(2) unfolding q by (rule all)
  obtain c2 where c2:
    "Close_drain (\<lambda>k. if k = 2 then 1 else 0) (ex_client_closing 5) = Ok c2"
    "\<forall>req \<in> set (buf (tsoRequests (ex_client_closing 5))).
              req_done (reqs c2 ! req) = \<lparr>cap = 1, buf = [Some (Trace errClosing)]\<rparr> \<and>
              (\<forall>ctx_err. \<exists>c''. GetTS_select DoneCase ctx_err req c2 =
                 Ok ((0, 0, Some (Trace (Trace errClosing))), c''))"
    "length (buf (tsoRequests c2)) \<le>
       sum (\<lambda>k. if k = 2 then 1 else 0) {..length (buf (tsoRequests (ex_client_closing 5)))}"
    "(\<exists>k < length (buf (tsoRequests (ex_client_closing 5))). 0 < (if k = 2 then 1 else 0 :: nat)) \<longrightarrow>
       buf (tsoRequests c2) \<noteq> []"
    using Close_drain_fails_queued [OF r w, where arr = "\<lambda>k. if k = 2 then 1 else 0"]
    by (elim exE conjE) (rule that)
  have "\<exists>k < length (buf (tsoRequests (ex_client_closing 5))). 0 < (if k = 2 then 1 else 0 :: nat)"
    unfolding q by (intro exI [of _ 2]) simp
  then have e2: "buf (tsoRequests c2) \<noteq> []" using c2(4) by simp
  have l2: "length (buf (tsoRequests c2)) \<le> 1" using c2(3) unfolding q by simp
  have m2: "map (\<lambda>req. buf (req_done (reqs c2 ! req))) [0, 1, 2, 3, 4] =
        replicate 5 [Some (Trace errClosing)]"
    using c2(2) unfolding q by (rule all)
  have p1: "\<exists>c'. Close_drain (\<lambda>k. 0) (ex_client_closing 5) = Ok c' \<and> buf (tsoRequests c') = [] \<and>
      map (\<lambda>req. buf (req_done (reqs c' ! req))) [0, 1, 2, 3, 4] =
        replicate 5 [Some (Trace errClosing)]"
    by (intro exI [of _ c1] conjI) (fact c1(1) e1 m1)+
  have p2: "\<exists>c'. Close_drain (\<lambda>k. if k = 2 then 1 else 0) (ex_client_closing 5) = Ok c' \<and>
      buf (tsoRequests c') \<noteq> [] \<and> length (buf (tsoRequests c')) \<le> 1 \<and>
      map (\<lambda>req. buf (req_done (reqs c' ! req))) [0, 1, 2, 3, 4] =
        replicate 5 [Some (Trace errClosing)]"
    by (intro exI [of _ c2] conjI) (fact c2(1) e2 l2 m2)+
  show ?thesis by (intro conjI) (fact p1 p2)+
qed

text \<open>
  So a caller can be left waiting when \<^verbatim>\<open>Close\<close> has returned. Five requests are in the
  queue and both loops have returned; a sixth caller reaches its send after the first
  receive of \<^verbatim>\<open>Close\<close>. Then \<^verbatim>\<open>Close\<close> returns with the sixth request in the queue,
  its done channel empty and its caller waiting. The same holds of a caller that waits
  at a full queue since before \<^verbatim>\<open>Close\<close> was called: the first receive lets its
  request in, and none of the 10000 receives takes it.
\<close>

theorem Close_drain_late_caller_counterexample:
  "(case Close_drain (\<lambda>k. if k = 4 then 1 else 0) (ex_client_closing 5) of
      Ok c' \<Rightarrow>
        buf (tsoRequests c') = [5] \<and> buf (req_done (reqs c' ! 5)) = [] \<and>
        GetTS_select DoneCase None 5 c' = Blocked \<and> GetTS_select CtxDoneCase None 5 c' = Blocked
    | _ \<Rightarrow> False) \<and>
   GetTS_enqueue (ex_client_closing 10000) = Blocked \<and>
   (case Close_drain (\<lambda>k. if k = 9999 then 1 else 0) (ex_client_closing 10000) of
      Ok c' \<Rightarrow>
        buf (tsoRequests c') = [10000] \<and> buf (req_done (reqs c' ! 10000)) = [] \<and>
        GetTS_select DoneCase None 10000 c' = Blocked \<and>
        GetTS_select CtxDoneCase None 10000 c' = Blocked
    | _ \<Rightarrow> False)"
proof -
  have late: "case Close_drain (\<lambda>k. if k = j then 1 else 0) (ex_client_closing n) of
      Ok c' \<Rightarrow>
        buf (tsoRequests c') = [n] \<and> buf (req_done (reqs c' ! n)) = [] \<and>
        GetTS_select DoneCase None n c' = Blocked \<and> GetTS_select CtxDoneCase None n c' = Blocked
    | _ \<Rightarrow> False" if n: "n \<le> 10000" and j: "j < n" for j n
  proof -
    let ?c = "ex_client_closing n"
    let ?arr = "\<lambda>k. if k = j then 1 else 0 :: nat"
    have inv: "queue_inv ?c" using ex_client_closing_reachable [OF n] by (simp add: reachable_inv)
    have w: "wg ?c = 0" by (simp add: ex_client_closing_def)
    have f: "length (buf (tsoRequests ?c)) = n" "length (reqs ?c) = n"
      by (simp_all add: ex_client_closing_def ex_client_queued_def)
    obtain rs m where rs:
      "Close_drain ?arr ?c =
           Ok (?c\<lparr>tsoRequests := (tsoRequests ?c)\<lparr>buf := [length (reqs ?c) ..< length (reqs ?c) + m]\<rparr>,
                 reqs := rs, doneLog := doneLog ?c @ buf (tsoRequests ?c)\<rparr>)"
      "length rs = length (reqs ?c) + m"
      "\<forall>r. length (reqs ?c) \<le> r \<and> r < length (reqs ?c) + m \<longrightarrow> rs ! r = fresh_request"
      "m \<le> sum ?arr {..length (buf (tsoRequests ?c))}"
      "(\<exists>k < length (buf (tsoRequests ?c)). 0 < ?arr k) \<longrightarrow> 0 < m"
      using Close_drain_run [OF inv w, of ?arr] by (elim exE conjE) (rule that)
    have "\<exists>k < n. 0 < ?arr k" using j by (intro exI [of _ j]) simp
    then have "0 < m" using rs(5) f(1) by simp
    moreover have "m \<le> 1" using rs(4) j unfolding f(1) by simp
    ultimately have m: "m = 1" by simp
    let ?c' = "?c\<lparr>tsoRequests := (tsoRequests ?c)\<lparr>buf := [n]\<rparr>,
                 reqs := rs, doneLog := doneLog ?c @ buf (tsoRequests ?c)\<rparr>"
    have run: "Close_drain ?arr ?c = Ok ?c'" using rs(1) unfolding f(2) m by simp
    have fr: "reqs ?c' ! n = fresh_request" using rs(3) unfolding f(2) m by simp
    have len: "n < length (reqs ?c')" using rs(2) unfolding f(2) m by simp
    have e: "buf (req_done (reqs ?c' ! n)) = []"
      unfolding fr by (simp add: fresh_request_def make_chan_def)
    show ?thesis
      unfolding run using e GetTS_select_fresh [OF len fr, of None] by simp
  qed
  have a: "case Close_drain (\<lambda>k. if k = 4 then 1 else 0) (ex_client_closing 5) of
      Ok c' \<Rightarrow>
        buf (tsoRequests c') = [5] \<and> buf (req_done (reqs c' ! 5)) = [] \<and>
        GetTS_select DoneCase None 5 c' = Blocked \<and> GetTS_select CtxDoneCase None 5 c' = Blocked
    | _ \<Rightarrow> False"
    by (rule late) simp_all
  have b: "GetTS_enqueue (ex_client_closing 10000) = Blocked"
    by (simp add: GetTS_enqueue_def Let_def chan_send_def ex_client_closing_def ex_client_queued_def)
  have c: "case Close_drain (\<lambda>k. if k = 9999 then 1 else 0) (ex_client_closing 10000) of
      Ok c' \<Rightarrow>
        buf (tsoRequests c') = [10000] \<and> buf (req_done (reqs c' ! 10000)) = [] \<and>
        GetTS_select DoneCase None 10000 c' = Blocked \<and>
        GetTS_select CtxDoneCase None 10000 c' = Blocked
    | _ \<Rightarrow> False"
    by (rule late) simp_all
  show ?thesis by (intro conjI) (fact a b c)+
qed

subsection \<open>The recheck signal\<close>

lemma scheduleCheckLeader_pending:
  assumes "signal_inv c"
  shows "chan_len (checkLeaderCh (scheduleCheckLeader c)) = 1"
    and "signal_inv (scheduleCheckLeader c)"
    and "chan_len (checkLeaderCh c) = 1 \<Longrightarrow> scheduleCheckLeader c = c"
  using assms
  by (cases "buf (checkLeaderCh c)";
      auto simp: scheduleCheckLeader_def signal_inv_def chan_send_def chan_len_def)+

lemma scheduleCheckLeader_idem:
  assumes "signal_inv c"
  shows "(scheduleCheckLeader ^^ Suc n) c = scheduleCheckLeader c"
proof (induction n)
  case 0
  show ?case by simp
next
  case (Suc n)
  have "(scheduleCheckLeader ^^ Suc (Suc n)) c = scheduleCheckLeader ((scheduleCheckLeader ^^ Suc n) c)"
    by simp
  also have "\<dots> = scheduleCheckLeader (scheduleCheckLeader c)" using Suc by simp
  also have "\<dots> = scheduleCheckLeader c"
    using scheduleCheckLeader_pending [OF assms]
      scheduleCheckLeader_pending(3) [of "scheduleCheckLeader c"] by simp
  finally show ?case .
qed

text \<open>
  C7: \<^verbatim>\<open>scheduleCheckLeader\<close> is a send under a select with a default case, so it
  always returns. In every state the client can reach at most one signal is pending;
  with one pending the call changes nothing; and any number of calls in a row leave
  exactly one signal pending, the state one call leaves.
\<close>

theorem scheduleCheckLeader_coalesces:
  assumes "reachable c"
  shows "chan_len (checkLeaderCh c) \<le> 1 \<and>
         (chan_len (checkLeaderCh c) = 1 \<longrightarrow> scheduleCheckLeader c = c) \<and>
         (\<forall>n. (scheduleCheckLeader ^^ Suc n) c = scheduleCheckLeader c) \<and>
         (\<forall>n. chan_len (checkLeaderCh ((scheduleCheckLeader ^^ Suc n) c)) = 1)"
proof -
  have s: "signal_inv c" using assms by (simp add: reachable_inv)
  have a: "chan_len (checkLeaderCh c) \<le> 1" using s by (simp add: signal_inv_def chan_len_def)
  have b: "chan_len (checkLeaderCh c) = 1 \<longrightarrow> scheduleCheckLeader c = c"
    using scheduleCheckLeader_pending(3) [OF s] by simp
  have c: "\<forall>n. (scheduleCheckLeader ^^ Suc n) c = scheduleCheckLeader c"
    using scheduleCheckLeader_idem [OF s] by simp
  have d: "\<forall>n. chan_len (checkLeaderCh ((scheduleCheckLeader ^^ Suc n) c)) = 1"
    using scheduleCheckLeader_idem [OF s] scheduleCheckLeader_pending(1) [OF s] by simp
  show ?thesis by (intro conjI) (fact a b c d)+
qed

theorem scheduleCheckLeader_coalesces_witness:
  "chan_len (checkLeaderCh ex_client) = 0 \<and>
   chan_len (checkLeaderCh ((scheduleCheckLeader ^^ 5) ex_client)) = 1 \<and>
   (scheduleCheckLeader ^^ 5) ex_client = scheduleCheckLeader ex_client \<and>
   scheduleCheckLeader (scheduleCheckLeader ex_client) = scheduleCheckLeader ex_client"
proof -
  have r: "reachable ex_client" using ex_NewClient by (rule reachable.init)
  have r1: "reachable (scheduleCheckLeader ex_client)" using r by (rule reachable.schedule)
  have 5: "(5::nat) = Suc 4" by simp
  have a: "chan_len (checkLeaderCh ex_client) = 0"
    by (simp add: ex_client_def chan_len_def make_chan_def)
  have b: "chan_len (checkLeaderCh ((scheduleCheckLeader ^^ 5) ex_client)) = 1"
    unfolding 5 using scheduleCheckLeader_coalesces [OF r] by blast
  have c: "(scheduleCheckLeader ^^ 5) ex_client = scheduleCheckLeader ex_client"
    unfolding 5 using scheduleCheckLeader_coalesces [OF r] by blast
  have "chan_len (checkLeaderCh (scheduleCheckLeader ex_client)) = 1"
    using scheduleCheckLeader_coalesces [OF r, THEN conjunct2, THEN conjunct2, THEN conjunct2, rule_format, of 0]
    by simp
  then have d: "scheduleCheckLeader (scheduleCheckLeader ex_client) = scheduleCheckLeader ex_client"
    using scheduleCheckLeader_coalesces [OF r1] by blast
  show ?thesis by (intro conjI) (fact a b c d)+
qed

subsection \<open>Completion slots\<close>

text \<open>
  C9: \<^verbatim>\<open>GetTS\<close> creates the done channel of a request with capacity 1, and every done
  channel keeps this capacity. In every state the client can reach no done channel has
  been sent to twice, an iteration of the timestamp loop never blocks (it completes
  every request of its batch, once), and neither does the loop of \<^verbatim>\<open>Close\<close>,
  whatever callers come to the queue while it runs. A caller whose context is done
  returns without touching the state, so its request is still completed by a later
  batch.
\<close>

theorem done_slot_never_blocks:
  assumes "reachable c"
  shows "(\<forall>req c'. GetTS_enqueue c = Ok (req, c') \<longrightarrow> req_done (reqs c' ! req) = make_chan 1) \<and>
         (\<forall>req < length (reqs c). cap (req_done (reqs c ! req)) = 1) \<and>
         distinct (doneLog c) \<and>
         (\<forall>pick env. tsLoop_iter pick env c \<noteq> Blocked) \<and>
         (wg c = 0 \<longrightarrow> (\<forall>arr. Close_drain arr c \<noteq> Blocked)) \<and>
         (\<forall>first pending pc env.
            buf (tsoRequests c) = first # pending \<and> leaderClient c = Some pc \<longrightarrow>
            (\<exists>c'. tsLoop_iter TsoRequestCase env c = Ok (Continue c') \<and>
                  doneLog c' = doneLog c @ first # pending \<and> distinct (doneLog c'))) \<and>
         (\<forall>e req res c'. GetTS_select CtxDoneCase (Some e) req c = Ok (res, c') \<longrightarrow>
            c' = c \<and> res = (0, 0, Some (Trace e)))"
proof -
  have inv: "queue_inv c" using assms by (simp add: reachable_inv)
  have a: "\<forall>req c'. GetTS_enqueue c = Ok (req, c') \<longrightarrow> req_done (reqs c' ! req) = make_chan 1"
    by (auto simp: GetTS_enqueue_def Let_def split: option.splits)
  have b: "\<forall>req < length (reqs c). cap (req_done (reqs c ! req)) = 1"
    using inv by (simp add: queue_inv_def)
  have c: "distinct (doneLog c)" using inv by (simp add: queue_inv_def)
  have d: "\<forall>pick env. tsLoop_iter pick env c \<noteq> Blocked"
    using tsLoop_iter_not_blocked [OF inv] by simp
  have e: "wg c = 0 \<longrightarrow> (\<forall>arr. Close_drain arr c \<noteq> Blocked)"
    using Close_drain_not_blocked [OF inv] by simp
  have f: "\<forall>first pending pc env.
            buf (tsoRequests c) = first # pending \<and> leaderClient c = Some pc \<longrightarrow>
            (\<exists>c'. tsLoop_iter TsoRequestCase env c = Ok (Continue c') \<and>
                  doneLog c' = doneLog c @ first # pending \<and> distinct (doneLog c'))"
  proof (intro allI impI)
    fix first pending pc env
    assume h: "buf (tsoRequests c) = first # pending \<and> leaderClient c = Some pc"
    then have q: "buf (tsoRequests c) = first # pending" and lc: "leaderClient c = Some pc"
      by simp_all
    obtain rs where rs:
      "tsLoop_iter TsoRequestCase env c =
           Ok (Continue (c\<lparr>tsoRequests := (tsoRequests c)\<lparr>buf := late_requests (arrivals env) (dequeued c)\<rparr>,
                 reqs := rs,
                 tsoLog := tsoLog c @ [(pc, tso_request (dequeued c))],
                 doneLog := doneLog c @ first # pending\<rparr>))"
      using tsLoop_iter_run [OF inv q lc, of env] by blast
    let ?c' = "c\<lparr>tsoRequests := (tsoRequests c)\<lparr>buf := late_requests (arrivals env) (dequeued c)\<rparr>,
                 reqs := rs,
                 tsoLog := tsoLog c @ [(pc, tso_request (dequeued c))],
                 doneLog := doneLog c @ first # pending\<rparr>"
    have "reachable ?c'" using assms rs by (rule reachable.ts_continue)
    then have "queue_inv ?c'" by (simp add: reachable_inv)
    then have dis: "distinct (doneLog ?c')" by (simp add: queue_inv_def)
    have dl: "doneLog ?c' = doneLog c @ first # pending" by simp
    show "\<exists>c'. tsLoop_iter TsoRequestCase env c = Ok (Continue c') \<and>
                  doneLog c' = doneLog c @ first # pending \<and> distinct (doneLog c')"
      by (intro exI [of _ ?c'] conjI) (fact rs dl dis)+
  qed
  have g: "\<forall>e req res c'. GetTS_select CtxDoneCase (Some e) req c = Ok (res, c') \<longrightarrow>
            c' = c \<and> res = (0, 0, Some (Trace e))"
    by (auto simp: GetTS_select_def split: if_splits)
  show ?thesis by (intro conjI) (fact a b c d e f g)+
qed

theorem done_slot_never_blocks_witness:
  "GetTS_select CtxDoneCase (Some (External ''context deadline exceeded'')) 0 (ex_client_queued 5) =
     Ok ((0, 0, Some (Trace (External ''context deadline exceeded''))), ex_client_queued 5) \<and>
   tsLoop_iter TsoRequestCase (ex_tso 0 100 9) (ex_client_queued 5) \<noteq> Blocked \<and>
   (\<exists>c'. tsLoop_iter TsoRequestCase (ex_tso 0 100 9) (ex_client_queued 5) = Ok (Continue c') \<and>
         doneLog c' = [0, 1, 2, 3, 4]) \<and>
   Close_drain (\<lambda>k. 1) (ex_client_closing 5) \<noteq> Blocked"
proof -
  have r: "reachable (ex_client_queued 5)" by (rule ex_client_queued_reachable) simp
  have q: "buf (tsoRequests (ex_client_queued 5)) = 0 # [1, 2, 3, 4]"
    by (simp add: ex_client_queued_def upt_rec)
  have w: "wg (ex_client_closing 5) = 0" by (simp add: ex_client_closing_def)
  have rc: "reachable (ex_client_closing 5)" by (rule ex_client_closing_reachable) simp
  note t = done_slot_never_blocks [OF r]
  note t4 = t [THEN conjunct2, THEN conjunct2, THEN conjunct2, THEN conjunct1, rule_format]
  note t6 = t [THEN conjunct2, THEN conjunct2, THEN conjunct2, THEN conjunct2, THEN conjunct2,
      THEN conjunct1, rule_format]
  note u5 = done_slot_never_blocks [OF rc, THEN conjunct2, THEN conjunct2,
      THEN conjunct2, THEN conjunct2, THEN conjunct1, rule_format]
  have a: "GetTS_select CtxDoneCase (Some (External ''context deadline exceeded'')) 0 (ex_client_queued 5) =
     Ok ((0, 0, Some (Trace (External ''context deadline exceeded''))), ex_client_queued 5)"
    by (simp add: GetTS_select_def ex_client_queued_fields)
  have b: "tsLoop_iter TsoRequestCase (ex_tso 0 100 9) (ex_client_queued 5) \<noteq> Blocked"
    by (rule t4)
  have "\<exists>c'. tsLoop_iter TsoRequestCase (ex_tso 0 100 9) (ex_client_queued 5) = Ok (Continue c') \<and>
         doneLog c' = doneLog (ex_client_queued 5) @ 0 # [1, 2, 3, 4] \<and> distinct (doneLog c')"
    using q ex_client_queued_fields(2) by (intro t6 conjI)
  then obtain c' where c':
    "tsLoop_iter TsoRequestCase (ex_tso 0 100 9) (ex_client_queued 5) = Ok (Continue c')"
    "doneLog c' = doneLog (ex_client_queued 5) @ 0 # [1, 2, 3, 4]"
    by (elim exE conjE) (rule that)
  have dl: "doneLog c' = [0, 1, 2, 3, 4]" using c'(2) by (simp add: ex_client_queued_fields)
  have c: "\<exists>c'. tsLoop_iter TsoRequestCase (ex_tso 0 100 9) (ex_client_queued 5) = Ok (Continue c') \<and>
         doneLog c' = [0, 1, 2, 3, 4]"
    by (intro exI [of _ c'] conjI) (fact c'(1) dl)+
  have d: "Close_drain (\<lambda>k. 1) (ex_client_closing 5) \<noteq> Blocked" using w by (rule u5)
  show ?thesis by (intro conjI) (fact a b c d)+
qed

subsection \<open>Further properties\<close>

text \<open>
  Every state the client can reach is well formed: the queue holds, within its
  capacity of 10000, distinct allocated requests that were never completed; no request
  was completed twice; every done channel has capacity 1 and is empty until its request
  is completed; at most one recheck signal is pending; and a leader with a non-empty
  address has a connection in the registry.
\<close>

theorem reachable_well_formed:
  assumes "reachable c"
  shows "queue_inv c \<and> signal_inv c \<and> leader_inv c"
  using assms reachable_inv [of c] reachable_leader_inv [of c] by simp

theorem reachable_well_formed_witness:
  "queue_inv (ex_client_queued 5) \<and> signal_inv (ex_client_queued 5) \<and>
   leader_inv (ex_client_queued 5) \<and> buf (tsoRequests (ex_client_queued 5)) = [0, 1, 2, 3, 4]"
proof -
  have r: "reachable (ex_client_queued 5)" by (rule ex_client_queued_reachable) simp
  have q: "buf (tsoRequests (ex_client_queued 5)) = [0, 1, 2, 3, 4]"
    by (simp add: ex_client_queued_def upt_rec)
  show ?thesis using reachable_well_formed [OF r] q by simp
qed

text \<open>
  When the remote call of \<open>GetStore\<close> fails, \<open>GetStore\<close> returns no store and
  the error, traced, and schedules a recheck of the leader.
\<close>

theorem GetStore_failure_schedules_recheck:
  assumes "leaderClient c = Some pc" and "rpc pc storeID = Inl err"
  shows "GetStore rpc storeID c = Ok ((None, Some (Trace err)), scheduleCheckLeader c)"
  using assms by (simp add: GetStore_def)

theorem GetStore_failure_schedules_recheck_witness:
  "GetStore (\<lambda>pc storeID. Inl (External ''context deadline exceeded'')) 7 ex_client =
     Ok ((None, Some (Trace (External ''context deadline exceeded''))),
         ex_client\<lparr>checkLeaderCh := \<lparr>cap = 1, buf = [()]\<rparr>\<rparr>)"
proof -
  have l: "leaderClient ex_client = Some (NewPDClient (ClientConn ''http://pd3:2379''))"
    by (simp add: leaderClient_def ex_client_def)
  have s: "scheduleCheckLeader ex_client = ex_client\<lparr>checkLeaderCh := \<lparr>cap = 1, buf = [()]\<rparr>\<rparr>"
    by (simp add: scheduleCheckLeader_def chan_send_def ex_client_def make_chan_def)
  show ?thesis
    using GetStore_failure_schedules_recheck [OF l, where
        rpc = "\<lambda>pc storeID. Inl (External ''context deadline exceeded'')" and storeID = 7
        and err = "External ''context deadline exceeded''"] s
    by simp
qed

text \<open>
  The enqueue of \<^verbatim>\<open>GetTS\<close> blocks exactly when the queue is full; otherwise it
  appends a fresh request at the tail of the queue, behind the requests already there.
\<close>

theorem GetTS_enqueue_backpressure:
  "(GetTS_enqueue c = Blocked \<longleftrightarrow> cap (tsoRequests c) \<le> length (buf (tsoRequests c))) \<and>
   (length (buf (tsoRequests c)) < cap (tsoRequests c) \<longrightarrow>
      GetTS_enqueue c =
        Ok (length (reqs c),
            c\<lparr>reqs := reqs c @ [fresh_request],
              tsoRequests := (tsoRequests c)\<lparr>buf := buf (tsoRequests c) @ [length (reqs c)]\<rparr>\<rparr>))"
  by (auto simp: GetTS_enqueue_def Let_def chan_send_def fresh_request_def)

theorem GetTS_enqueue_backpressure_witness:
  "GetTS_enqueue (ex_client_queued 10000) = Blocked \<and>
   GetTS_enqueue (ex_client_queued 9999) = Ok (9999, ex_client_queued 10000)"
proof -
  have f: "cap (tsoRequests (ex_client_queued 10000)) \<le> length (buf (tsoRequests (ex_client_queued 10000)))"
    by (simp add: ex_client_queued_def)
  have a: "GetTS_enqueue (ex_client_queued 10000) = Blocked"
    using GetTS_enqueue_backpressure [of "ex_client_queued 10000"] f by blast
  have b: "GetTS_enqueue (ex_client_queued 9999) = Ok (9999, ex_client_queued 10000)"
    using ex_client_queued_enqueue [of 9999] by simp
  show ?thesis using a b by (rule conjI)
qed

text \<open>
  When \<open>updateLeader\<close> succeeds on an answer that reports a leader other than the
  current one, the reported address is the leader afterwards and the connection that
  the next remote call uses is the one the registry holds for it.
\<close>

theorem updateLeader_routes_to_new_leader:
  assumes "first_leader_answer api (urls c) p ldr" and "leader c \<noteq> Addr ldr"
    and "fst (updateLeader api dial c) = None"
  shows "leader (snd (updateLeader api dial c)) = Addr ldr \<and>
         (\<exists>pc. leaderClient (snd (updateLeader api dial c)) = Some pc \<and>
               clients (snd (updateLeader api dial c)) (Addr ldr) = Some pc)"
proof -
  have u: "updateLeader api dial c = on_answer dial ldr c" using assms(1) by (rule updateLeader_first)
  show ?thesis
    using assms(2,3) unfolding u on_answer_cases
    by (auto simp: leaderClient_def split: option.splits sum.splits if_splits)
qed

theorem updateLeader_routes_to_new_leader_witness:
  "leader ex_client_old = ''http://pd1:2379'' \<and>
   leader (snd (updateLeader ex_api ex_dial ex_client_old)) = ''http://pd3:2379'' \<and>
   leaderClient (snd (updateLeader ex_api ex_dial ex_client_old)) =
     Some (NewPDClient (ClientConn ''http://pd3:2379''))"
proof -
  have f: "first_leader_answer ex_api (urls ex_client_old) 2 \<lparr>Addr = ''http://pd3:2379''\<rparr>"
    by (simp add: first_leader_answer_def ex_client_old_def ex_client_def all_less_2
        leader_answer_def ex_api_def)
  have n: "leader ex_client_old \<noteq> Addr \<lparr>Addr = ''http://pd3:2379''\<rparr>"
    by (simp add: ex_client_old_def ex_client_def)
  have u: "updateLeader ex_api ex_dial ex_client_old =
          (None, ex_client_old\<lparr>clients := (clients ex_client_old)(''http://pd3:2379'' \<mapsto>
             NewPDClient (ClientConn ''http://pd3:2379'')), leader := ''http://pd3:2379''\<rparr>)"
    using f by (simp add: updateLeader_first on_answer_cases ex_client_old_def ex_client_def ex_dial_def)
  have e: "fst (updateLeader ex_api ex_dial ex_client_old) = None" using u by simp
  have a: "leader ex_client_old = ''http://pd1:2379''" by (simp add: ex_client_old_def)
  have b: "leader (snd (updateLeader ex_api ex_dial ex_client_old)) = ''http://pd3:2379''"
    using updateLeader_routes_to_new_leader [OF f n e] by simp
  have c: "leaderClient (snd (updateLeader ex_api ex_dial ex_client_old)) =
     Some (NewPDClient (ClientConn ''http://pd3:2379''))"
    using u by (simp add: leaderClient_def)
  show ?thesis by (intro conjI) (fact a b c)+
qed

end
